theory Spec2Isabelle
  imports Main "HOL-Library.Word" "HOL-Library.Sublist"
begin

section \<open>Common data: bytes, hashes, addresses\<close>

text \<open>
  go-ethereum's \<^verbatim>\<open>common.Hash\<close> is \<^verbatim>\<open>[32]byte\<close> and \<^verbatim>\<open>common.Address\<close> is
  \<^verbatim>\<open>[20]byte\<close>. A fixed-width byte array is a word of that many bits, read
  big-endian: byte 0 of the array is the most significant byte of the word.
\<close>

type_synonym byte = "8 word"
type_synonym Hash = "256 word"
type_synonym Address = "160 word"

text \<open>A Go run-time panic, as a value.\<close>

datatype panic = MakeSliceCapOutOfRange | SliceBoundsOutOfRange

section \<open>The bounded event store\<close>

text \<open>
  \<^verbatim>\<open>TransferEvent\<close> holds the block number, and the renderings \<^verbatim>\<open>TxHash.Hex()\<close>,
  \<^verbatim>\<open>From.Hex()\<close>, \<^verbatim>\<open>To.Hex()\<close> and \<^verbatim>\<open>Value.String()\<close>. These renderings are
  injective library functions (the address rendering needs Keccak for its checksum
  casing); the record keeps the rendered values themselves. \<^verbatim>\<open>Timestamp\<close> is the
  value \<^verbatim>\<open>time.Now()\<close> returned, an input of the model.
\<close>

record TransferEvent =
  BlockNumber :: "64 word"
  TxHash :: Hash
  From :: Address
  To :: Address
  Value :: nat
  Timestamp :: nat

text \<open>
  \<^verbatim>\<open>EventStore\<close>: the slice \<^verbatim>\<open>events\<close> and the Go \<^verbatim>\<open>int\<close> \<^verbatim>\<open>limit\<close>. The mutex
  is not modelled: every method holds it from entry to return, so the methods are
  atomic state transformers.
\<close>

record EventStore =
  events :: "TransferEvent list"
  limit :: int

text \<open>
  \<^verbatim>\<open>NewEventStore\<close>: \<^verbatim>\<open>make([]TransferEvent, 0, limit)\<close> panics for a negative
  capacity. (The allocator's upper bound on the capacity is not modelled.)
\<close>

definition NewEventStore :: "int \<Rightarrow> panic + EventStore" where
  "NewEventStore lim =
     (if lim < 0 then Inl MakeSliceCapOutOfRange
      else Inr \<lparr>events = [], limit = lim\<rparr>)"

text \<open>
  The slice expression \<^verbatim>\<open>s[1:]\<close>: the upper index defaults to \<^verbatim>\<open>len(s)\<close>, so it is
  in range exactly when \<^verbatim>\<open>1 <= len(s)\<close>, and panics otherwise.
\<close>

definition slice_from_1 :: "'a list \<Rightarrow> panic + 'a list" where
  "slice_from_1 xs = (if 1 \<le> length xs then Inr (drop 1 xs) else Inl SliceBoundsOutOfRange)"

definition Add :: "EventStore \<Rightarrow> TransferEvent \<Rightarrow> panic + EventStore" where
  "Add s e =
     (if int (length (events s)) \<ge> limit s then
        (case slice_from_1 (events s) of
           Inl p \<Rightarrow> Inl p
         | Inr kept \<Rightarrow> Inr (s\<lparr>events := kept @ [e]\<rparr>))
      else Inr (s\<lparr>events := events s @ [e]\<rparr>))"

text \<open>\<^verbatim>\<open>List\<close> returns a copy of the slice: the list itself.\<close>

definition List_events :: "EventStore \<Rightarrow> TransferEvent list" where
  "List_events s = events s"

text \<open>A sequence of \<^verbatim>\<open>Add\<close> calls, in arrival order; a panic ends the run.\<close>

fun AddAll :: "EventStore \<Rightarrow> TransferEvent list \<Rightarrow> panic + EventStore" where
  "AddAll s [] = Inr s"
| "AddAll s (e # es) = (case Add s e of Inl p \<Rightarrow> Inl p | Inr s' \<Rightarrow> AddAll s' es)"

text \<open>A store is built by \<^verbatim>\<open>NewEventStore\<close> and then filled by \<^verbatim>\<open>Add\<close>.\<close>

definition build_store :: "int \<Rightarrow> TransferEvent list \<Rightarrow> panic + EventStore" where
  "build_store lim es = (case NewEventStore lim of Inl p \<Rightarrow> Inl p | Inr s \<Rightarrow> AddAll s es)"

subsection \<open>Facts about the store\<close>

lemma Add_positive_limit:
  assumes "1 \<le> limit s" and "int (length (events s)) \<le> limit s"
  shows "Add s e = Inr (s\<lparr>events :=
           (if int (length (events s)) = limit s then drop 1 (events s) else events s) @ [e]\<rparr>)"
proof (cases "int (length (events s)) = limit s")
  case True
  with assms have "1 \<le> length (events s)" by simp
  with True show ?thesis by (simp add: Add_def slice_from_1_def)
next
  case False
  with assms have "\<not> int (length (events s)) \<ge> limit s" by simp
  with False show ?thesis by (simp add: Add_def)
qed

lemma AddAll_positive_limit:
  assumes "1 \<le> limit s" and "int (length (events s)) \<le> limit s"
  shows "AddAll s es =
           Inr (s\<lparr>events := drop (length (events s) + length es - nat (limit s)) (events s @ es)\<rparr>)"
  using assms
proof (induction es arbitrary: s)
  case Nil
  then show ?case by simp
next
  case (Cons e es)
  let ?s' = "s\<lparr>events :=
      (if int (length (events s)) = limit s then drop 1 (events s) else events s) @ [e]\<rparr>"
  have step: "Add s e = Inr ?s'"
    using Cons.prems by (rule Add_positive_limit)
  have lim: "1 \<le> limit ?s'" "int (length (events ?s')) \<le> limit ?s'"
    using Cons.prems by auto
  have "AddAll s (e # es) = AddAll ?s' es"
    using step by simp
  also have "\<dots> = Inr (?s'\<lparr>events :=
      drop (length (events ?s') + length es - nat (limit ?s')) (events ?s' @ es)\<rparr>)"
    using lim by (rule Cons.IH)
  also have "\<dots> = Inr (s\<lparr>events :=
      drop (length (events s) + length (e # es) - nat (limit s)) (events s @ e # es)\<rparr>)"
  proof (cases "int (length (events s)) = limit s")
    case True
    then have n: "nat (limit s) = length (events s)" by simp
    from True Cons.prems have pos: "1 \<le> length (events s)" by simp
    have "drop (length es) (drop 1 (events s) @ e # es)
          = drop (Suc (length es)) (events s @ e # es)"
      using pos by (cases "events s") simp_all
    with True n pos show ?thesis by simp
  next
    case False
    with Cons.prems have lt: "length (events s) < nat (limit s)" by simp
    then have "length (events s) + length es - nat (limit s)
               = Suc (length (events s) + length es) - nat (limit s) - 1" by simp
    with False lt show ?thesis
      by (simp add: Suc_diff_le)
  qed
  finally show ?case .
qed

lemma build_store_positive_limit:
  assumes "1 \<le> lim"
  shows "build_store lim es = Inr \<lparr>events = drop (length es - nat lim) es, limit = lim\<rparr>"
proof -
  let ?s0 = "\<lparr>events = [], limit = lim\<rparr>"
  have "NewEventStore lim = Inr ?s0"
    using assms by (simp add: NewEventStore_def)
  moreover have "AddAll ?s0 es
      = Inr (?s0\<lparr>events := drop (length (events ?s0) + length es - nat (limit ?s0)) (events ?s0 @ es)\<rparr>)"
    by (rule AddAll_positive_limit) (use assms in simp_all)
  ultimately show ?thesis by (simp add: build_store_def)
qed


text \<open>A sample event, numbered, for concrete runs.\<close>

definition sample_event :: "nat \<Rightarrow> TransferEvent" where
  "sample_event k =
     \<lparr>BlockNumber = of_nat k, TxHash = 0, From = 0, To = 0, Value = k, Timestamp = k\<rparr>"

text \<open>
  Claim C4. A store built with a capacity of at least 1 holds, after any sequence of
  appended events, exactly the last \<open>capacity\<close> of them in arrival order (so never more
  than \<open>capacity\<close>). After \<open>capacity + 1\<close> events it holds \<open>capacity\<close> events: the
  arrival sequence without its first element, the most recent event last; when the
  events are pairwise different the first one is absent.
\<close>

theorem store_keeps_last_capacity:
  assumes "1 \<le> lim"
  shows "build_store lim es = Inr \<lparr>events = drop (length es - nat lim) es, limit = lim\<rparr>
       \<and> int (length (drop (length es - nat lim) es)) \<le> lim
       \<and> (length es = nat lim + 1 \<longrightarrow>
            build_store lim es = Inr \<lparr>events = tl es, limit = lim\<rparr>
          \<and> length (tl es) = nat lim
          \<and> last (tl es) = last es
          \<and> (distinct es \<longrightarrow> hd es \<notin> set (tl es)))"
proof (intro conjI impI)
  show built: "build_store lim es = Inr \<lparr>events = drop (length es - nat lim) es, limit = lim\<rparr>"
    using assms by (rule build_store_positive_limit)
  show "int (length (drop (length es - nat lim) es)) \<le> lim"
    using assms by simp
  assume len: "length es = nat lim + 1"
  then have "drop (length es - nat lim) es = tl es"
    by (simp add: drop_Suc)
  with built show "build_store lim es = Inr \<lparr>events = tl es, limit = lim\<rparr>"
    by simp
  show "length (tl es) = nat lim"
    using len by simp
  from len assms have "tl es \<noteq> []"
    by (cases es) auto
  then show "last (tl es) = last es"
    by (cases es) simp_all
  assume "distinct es"
  then show "hd es \<notin> set (tl es)"
    using len by (cases es) simp_all
qed

theorem store_keeps_last_capacity_witness:
  "(1::int) \<le> 2
   \<and> build_store 2 [sample_event 1, sample_event 2, sample_event 3]
       = Inr \<lparr>events = [sample_event 2, sample_event 3], limit = 2\<rparr>
   \<and> last [sample_event 2, sample_event 3] = sample_event 3
   \<and> distinct [sample_event 1, sample_event 2, sample_event 3]
   \<and> sample_event 1 \<notin> set [sample_event 2, sample_event 3]"
proof -
  have d: "distinct [sample_event 1, sample_event 2, sample_event 3]"
    by (simp add: sample_event_def)
  show ?thesis
    using store_keeps_last_capacity [of 2 "[sample_event 1, sample_event 2, sample_event 3]"] d
    by simp
qed

text \<open>
  Claim C10. With a limit of at least 1, \<^verbatim>\<open>Add\<close> never panics: not on any store
  state, and so not during any run of appends to a store built by \<^verbatim>\<open>NewEventStore\<close>.
  With limit 0 the constructor succeeds and the first \<^verbatim>\<open>Add\<close> evaluates
  \<^verbatim>\<open>events[1:]\<close> on the empty slice and panics.
\<close>

theorem Add_slice_in_bounds_iff_positive_limit:
  "(1 \<le> limit s \<longrightarrow> (\<exists>s'. Add s e = Inr s'))
   \<and> (1 \<le> lim \<longrightarrow> (\<exists>s'. build_store lim es = Inr s'))
   \<and> NewEventStore 0 = Inr \<lparr>events = [], limit = 0\<rparr>
   \<and> slice_from_1 (events \<lparr>events = [], limit = 0\<rparr>) = Inl SliceBoundsOutOfRange
   \<and> Add \<lparr>events = [], limit = 0\<rparr> e0 = Inl SliceBoundsOutOfRange
   \<and> build_store 0 (e0 # es0) = Inl SliceBoundsOutOfRange"
proof (intro conjI impI)
  assume pos: "1 \<le> limit s"
  show "\<exists>s'. Add s e = Inr s'"
  proof (cases "int (length (events s)) \<ge> limit s")
    case True
    with pos have "1 \<le> length (events s)" by simp
    with True show ?thesis by (simp add: Add_def slice_from_1_def)
  next
    case False
    then show ?thesis by (simp add: Add_def)
  qed
next
  assume "1 \<le> lim"
  then show "\<exists>s'. build_store lim es = Inr s'"
    by (simp add: build_store_positive_limit)
next
  show "NewEventStore 0 = Inr \<lparr>events = [], limit = 0\<rparr>"
    by (simp add: NewEventStore_def)
  show "slice_from_1 (events \<lparr>events = [], limit = 0\<rparr>) = Inl SliceBoundsOutOfRange"
    by (simp add: slice_from_1_def)
  show "Add \<lparr>events = [], limit = 0\<rparr> e0 = Inl SliceBoundsOutOfRange"
    by (simp add: Add_def slice_from_1_def)
  then show "build_store 0 (e0 # es0) = Inl SliceBoundsOutOfRange"
    by (simp add: build_store_def NewEventStore_def)
qed

theorem Add_slice_in_bounds_iff_positive_limit_witness:
  "(1::int) \<le> limit \<lparr>events = [sample_event 1], limit = 1\<rparr>
   \<and> Add \<lparr>events = [sample_event 1], limit = 1\<rparr> (sample_event 2)
       = Inr \<lparr>events = [sample_event 2], limit = 1\<rparr>
   \<and> (1::int) \<le> 1
   \<and> build_store 1 [sample_event 1, sample_event 2] = Inr \<lparr>events = [sample_event 2], limit = 1\<rparr>
   \<and> build_store 0 [sample_event 1] = Inl SliceBoundsOutOfRange"
proof -
  have a: "Add \<lparr>events = [sample_event 1], limit = 1\<rparr> (sample_event 2)
       = Inr \<lparr>events = [sample_event 2], limit = 1\<rparr>"
    by (simp add: Add_def slice_from_1_def)
  have b: "build_store 1 [sample_event 1, sample_event 2]
       = Inr \<lparr>events = [sample_event 2], limit = 1\<rparr>"
    by (simp add: build_store_def NewEventStore_def Add_def slice_from_1_def)
  show ?thesis
    using Add_slice_in_bounds_iff_positive_limit
      [where s = "\<lparr>events = [sample_event 1], limit = 1\<rparr>" and e = "sample_event 2"
         and lim = 1 and es = "[sample_event 1, sample_event 2]"
         and ?e0.0 = "sample_event 1" and ?es0.0 = "[]"] a b
    by simp
qed


section \<open>The node pool\<close>

text \<open>
  \<^verbatim>\<open>NodeStatus\<close>: the endpoint, the client handle (\<open>None\<close> is Go's \<^verbatim>\<open>nil\<close>) and the
  liveness flag. The type \<open>'c\<close> of client handles is left open.
\<close>

record 'c NodeStatus =
  URL :: string
  Client :: "'c option"
  Alive :: bool

text \<open>
  \<^verbatim>\<open>EthClientPool\<close>. The slice holds pointers to the node records; a node is
  identified by its position in \<open>nodes\<close>, and the selectors below return that
  position where the source returns the pointer \<^verbatim>\<open>p.nodes[idx]\<close>. The two indices
  are Go \<^verbatim>\<open>int\<close>s that are only ever assigned 0 or a position of the slice, so they
  are natural numbers here. The mutex is held over each whole method.
\<close>

record 'c EthClientPool =
  nodes :: "'c NodeStatus list"
  primaryIdx :: nat
  readIdx :: nat

datatype pool_error = NoRpcUrlsProvided | NoNodeConnectedSuccessfully

text \<open>
  \<^verbatim>\<open>strings.TrimSpace\<close> removes the leading and the trailing runes that
  \<^verbatim>\<open>unicode.IsSpace\<close> accepts. A Go string is a byte string in UTF-8: the six ASCII
  blanks (tab, line feed, vertical tab, form feed, carriage return, space) are one
  byte each, and the other white-space runes (U+0085, U+00A0, U+1680, U+2000 to
  U+200A, U+2028, U+2029, U+202F, U+205F, U+3000) are the byte sequences below. A byte
  that does not start or end such a sequence is no white space (a stray byte decodes
  to the replacement rune).
\<close>

definition ascii_space :: "char \<Rightarrow> bool" where
  "ascii_space c = (c \<in> set [CHR 0x09, CHR 0x0A, CHR 0x0B, CHR 0x0C, CHR 0x0D, CHR '' ''])"

definition wide_spaces :: "string list" where
  "wide_spaces =
     [[CHR 0xC2, CHR 0x85], [CHR 0xC2, CHR 0xA0], [CHR 0xE1, CHR 0x9A, CHR 0x80],
      [CHR 0xE2, CHR 0x80, CHR 0x80], [CHR 0xE2, CHR 0x80, CHR 0x81],
      [CHR 0xE2, CHR 0x80, CHR 0x82], [CHR 0xE2, CHR 0x80, CHR 0x83],
      [CHR 0xE2, CHR 0x80, CHR 0x84], [CHR 0xE2, CHR 0x80, CHR 0x85],
      [CHR 0xE2, CHR 0x80, CHR 0x86], [CHR 0xE2, CHR 0x80, CHR 0x87],
      [CHR 0xE2, CHR 0x80, CHR 0x88], [CHR 0xE2, CHR 0x80, CHR 0x89],
      [CHR 0xE2, CHR 0x80, CHR 0x8A], [CHR 0xE2, CHR 0x80, CHR 0xA8],
      [CHR 0xE2, CHR 0x80, CHR 0xA9], [CHR 0xE2, CHR 0x80, CHR 0xAF],
      [CHR 0xE2, CHR 0x81, CHR 0x9F], [CHR 0xE3, CHR 0x80, CHR 0x80]]"

text \<open>
  The width in bytes of the white-space rune at the start, and at the end, of a
  string; 0 when there is none.
\<close>

definition space_prefix :: "string \<Rightarrow> nat" where
  "space_prefix s =
     (case s of
        [] \<Rightarrow> 0
      | c # _ \<Rightarrow>
          if ascii_space c then 1
          else (case find (\<lambda>w. take (length w) s = w) wide_spaces of
                  None \<Rightarrow> 0
                | Some w \<Rightarrow> length w))"

definition space_suffix :: "string \<Rightarrow> nat" where
  "space_suffix s =
     (case rev s of
        [] \<Rightarrow> 0
      | c # _ \<Rightarrow>
          if ascii_space c then 1
          else (case find (\<lambda>w. take (length w) (rev s) = rev w) wide_spaces of
                  None \<Rightarrow> 0
                | Some w \<Rightarrow> length w))"

lemma space_prefix_Nil [simp]: "space_prefix [] = 0"
  by (simp add: space_prefix_def)

lemma space_suffix_Nil [simp]: "space_suffix [] = 0"
  by (simp add: space_suffix_def)

text \<open>The string without its leading, and without its trailing, white space.\<close>

function trim_left :: "string \<Rightarrow> string" where
  "trim_left s = (if space_prefix s = 0 then s else trim_left (drop (space_prefix s) s))"
  by pat_completeness auto
termination
proof (relation "measure length")
  show "wf (measure length)" by simp
next
  fix s :: string
  assume "space_prefix s \<noteq> 0"
  then have "s \<noteq> []" by auto
  with \<open>space_prefix s \<noteq> 0\<close> show "(drop (space_prefix s) s, s) \<in> measure length"
    by simp
qed

declare trim_left.simps [simp del]

function trim_right :: "string \<Rightarrow> string" where
  "trim_right s =
     (if space_suffix s = 0 then s else trim_right (take (length s - space_suffix s) s))"
  by pat_completeness auto
termination
proof (relation "measure length")
  show "wf (measure length)" by simp
next
  fix s :: string
  assume "space_suffix s \<noteq> 0"
  then have "s \<noteq> []" by auto
  with \<open>space_suffix s \<noteq> 0\<close>
  show "(take (length s - space_suffix s) s, s) \<in> measure length"
    by simp
qed

declare trim_right.simps [simp del]

definition TrimSpace :: "string \<Rightarrow> string" where
  "TrimSpace raw = trim_right (trim_left raw)"

text \<open>
  The loop of \<^verbatim>\<open>NewEthClientPool\<close> over \<^verbatim>\<open>urls\<close>, with the slice \<^verbatim>\<open>nodes\<close> built so
  far. \<open>dial u\<close> is the outcome of \<^verbatim>\<open>ethclient.DialContext(ctx, u)\<close>: \<open>None\<close> for
  an error, \<open>Some c\<close> for the client.
\<close>

fun dial_loop :: "(string \<Rightarrow> 'c option) \<Rightarrow> 'c NodeStatus list \<Rightarrow> string list \<Rightarrow> 'c NodeStatus list" where
  "dial_loop dial acc [] = acc"
| "dial_loop dial acc (raw # rest) =
     (let u = TrimSpace raw in
      if u = [] then dial_loop dial acc rest
      else (case dial u of
              None \<Rightarrow> dial_loop dial (acc @ [\<lparr>URL = u, Client = None, Alive = False\<rparr>]) rest
            | Some client \<Rightarrow>
                dial_loop dial (acc @ [\<lparr>URL = u, Client = Some client, Alive = True\<rparr>]) rest))"

definition NewEthClientPool :: "(string \<Rightarrow> 'c option) \<Rightarrow> string list \<Rightarrow> pool_error + 'c EthClientPool" where
  "NewEthClientPool dial urls =
     (if length urls = 0 then Inl NoRpcUrlsProvided
      else (let ns = dial_loop dial [] urls in
            if length ns = 0 then Inl NoNodeConnectedSuccessfully
            else Inr \<lparr>nodes = ns, primaryIdx = 0, readIdx = 0\<rparr>))"

text \<open>The test \<^verbatim>\<open>node.Alive && node.Client != nil\<close> of both selectors.\<close>

definition usable :: "'c NodeStatus \<Rightarrow> bool" where
  "usable node = (Alive node \<and> Client node \<noteq> None)"

text \<open>
  \<^verbatim>\<open>pickReadNode\<close>: the loop \<^verbatim>\<open>for i := 0; i < n; i++\<close>, from the value \<open>i\<close> of its
  counter on. The result is the position of the node returned (\<open>None\<close> for \<^verbatim>\<open>nil\<close>)
  and the pool after the call.
\<close>

function read_scan :: "'c EthClientPool \<Rightarrow> nat \<Rightarrow> nat option \<times> 'c EthClientPool" where
  "read_scan p i =
     (if i < length (nodes p) then
        (if usable (nodes p ! ((readIdx p + i) mod length (nodes p)))
         then (Some ((readIdx p + i) mod length (nodes p)),
               p\<lparr>readIdx := ((readIdx p + i) mod length (nodes p) + 1) mod length (nodes p)\<rparr>)
         else read_scan p (i + 1))
      else (None, p))"
  by pat_completeness auto
termination
  by (relation "measure (\<lambda>(p, i). length (nodes p) - i)") auto

declare read_scan.simps [simp del]

definition pickReadNode :: "'c EthClientPool \<Rightarrow> nat option \<times> 'c EthClientPool" where
  "pickReadNode p = read_scan p 0"

text \<open>\<^verbatim>\<open>pickPrimaryNode\<close>: the check of the current primary, then the scan from 0.\<close>

function primary_scan :: "'c EthClientPool \<Rightarrow> nat \<Rightarrow> nat option \<times> 'c EthClientPool" where
  "primary_scan p i =
     (if i < length (nodes p) then
        (if usable (nodes p ! i) then (Some i, p\<lparr>primaryIdx := i\<rparr>)
         else primary_scan p (i + 1))
      else (None, p))"
  by pat_completeness auto
termination
  by (relation "measure (\<lambda>(p, i). length (nodes p) - i)") auto

declare primary_scan.simps [simp del]

definition pickPrimaryNode :: "'c EthClientPool \<Rightarrow> nat option \<times> 'c EthClientPool" where
  "pickPrimaryNode p =
     (if length (nodes p) > 0 \<and> primaryIdx p < length (nodes p) \<and> usable (nodes p ! primaryIdx p)
      then (Some (primaryIdx p), p)
      else primary_scan p 0)"

text \<open>
  \<^verbatim>\<open>markNodeDead\<close>: the first record whose URL matches gets \<^verbatim>\<open>Alive = false\<close>, and the
  loop returns. The \<^verbatim>\<open>cause\<close> argument is only logged.
\<close>

fun mark_loop :: "'c NodeStatus list \<Rightarrow> string \<Rightarrow> 'c NodeStatus list" where
  "mark_loop [] url = []"
| "mark_loop (node # rest) url =
     (if URL node = url then node\<lparr>Alive := False\<rparr> # rest else node # mark_loop rest url)"

definition markNodeDead :: "'c EthClientPool \<Rightarrow> string \<Rightarrow> 'c EthClientPool" where
  "markNodeDead p url = p\<lparr>nodes := mark_loop (nodes p) url\<rparr>"

text \<open>The pool's operations, and a run of them in order.\<close>

datatype pool_op = PickRead | PickPrimary | MarkDead string

fun pool_step :: "'c EthClientPool \<Rightarrow> pool_op \<Rightarrow> 'c EthClientPool" where
  "pool_step p PickRead = snd (pickReadNode p)"
| "pool_step p PickPrimary = snd (pickPrimaryNode p)"
| "pool_step p (MarkDead url) = markNodeDead p url"

fun pool_run :: "'c EthClientPool \<Rightarrow> pool_op list \<Rightarrow> 'c EthClientPool" where
  "pool_run p [] = p"
| "pool_run p (x # xs) = pool_run (pool_step p x) xs"

text \<open>\<open>k\<close> consecutive \<^verbatim>\<open>pickReadNode\<close> calls: the results in call order, and the final pool.\<close>

fun read_calls :: "nat \<Rightarrow> 'c EthClientPool \<Rightarrow> nat option list \<times> 'c EthClientPool" where
  "read_calls 0 p = ([], p)"
| "read_calls (Suc k) p =
     (case pickReadNode p of (r, p') \<Rightarrow> (case read_calls k p' of (rs, p'') \<Rightarrow> (r # rs, p'')))"

text \<open>The positions of the live nodes, in slice order.\<close>

definition live_positions :: "'c EthClientPool \<Rightarrow> nat list" where
  "live_positions p = filter (\<lambda>i. usable (nodes p ! i)) [0..<length (nodes p)]"


subsection \<open>Round robin among the live nodes\<close>

text \<open>
  The order in which \<^verbatim>\<open>pickReadNode\<close> visits the positions: the slice order, rotated
  to start at \<open>readIdx\<close>.
\<close>

definition scan_order :: "'c EthClientPool \<Rightarrow> nat list" where
  "scan_order p = rotate (readIdx p) [0..<length (nodes p)]"

lemma scan_order_nth:
  "i < length (nodes p) \<Longrightarrow> scan_order p ! i = (readIdx p + i) mod length (nodes p)"
proof -
  assume i: "i < length (nodes p)"
  then have "(readIdx p + i) mod length (nodes p) < length (nodes p)"
    by (intro mod_less_divisor) auto
  with i show ?thesis
    by (simp add: scan_order_def nth_rotate)
qed

lemma length_scan_order [simp]: "length (scan_order p) = length (nodes p)"
  by (simp add: scan_order_def)

lemma read_scan_dropWhile:
  "read_scan p i =
     (case dropWhile (\<lambda>x. \<not> usable (nodes p ! x)) (drop i (scan_order p)) of
        [] \<Rightarrow> (None, p)
      | x # _ \<Rightarrow> (Some x, p\<lparr>readIdx := (x + 1) mod length (nodes p)\<rparr>))"
proof (induction p i rule: read_scan.induct)
  case (1 p i)
  show ?case
  proof (cases "i < length (nodes p)")
    case False
    then show ?thesis by (simp add: read_scan.simps [of p i])
  next
    case True
    then have d: "drop i (scan_order p) = scan_order p ! i # drop (Suc i) (scan_order p)"
      by (simp add: Cons_nth_drop_Suc)
    show ?thesis
    proof (cases "usable (nodes p ! ((readIdx p + i) mod length (nodes p)))")
      case u: True
      with True d show ?thesis
        by (simp add: read_scan.simps [of p i] scan_order_nth)
    next
      case u: False
      with True d "1.IH" show ?thesis
        by (simp add: read_scan.simps [of p i] scan_order_nth)
    qed
  qed
qed

lemma scan_order_advance:
  assumes "scan_order p = d @ x # r"
  shows "scan_order (p\<lparr>readIdx := (x + 1) mod length (nodes p)\<rparr>) = r @ d @ [x]"
proof -
  let ?n = "length (nodes p)"
  have len: "length d < ?n"
    using arg_cong [OF assms, of length] by simp
  have "x = scan_order p ! length d" using assms by simp
  then have x: "x = (readIdx p + length d) mod ?n"
    using len by (simp add: scan_order_nth)
  have "(x + 1) mod ?n = (readIdx p + length d + 1) mod ?n"
    unfolding x by (simp add: mod_Suc_eq)
  then have "scan_order (p\<lparr>readIdx := (x + 1) mod ?n\<rparr>)
      = rotate ((readIdx p + length d + 1) mod length [0..<?n]) [0..<?n]"
    by (simp add: scan_order_def)
  also have "\<dots> = rotate (readIdx p + length d + 1) [0..<?n]"
    by (rule rotate_conv_mod [symmetric])
  also have "\<dots> = rotate (length (d @ [x]) + readIdx p) [0..<?n]"
    by (simp add: add.commute)
  also have "\<dots> = rotate (length (d @ [x])) (scan_order p)"
    unfolding scan_order_def by (rule rotate_rotate [symmetric])
  also have "\<dots> = rotate (length (d @ [x])) ((d @ [x]) @ r)"
    using assms by simp
  also have "\<dots> = r @ (d @ [x])"
    by (rule rotate_append)
  finally show ?thesis by simp
qed


lemma set_scan_order [simp]: "set (scan_order p) = {0..<length (nodes p)}"
  by (simp add: scan_order_def)

lemma distinct_scan_order [simp]: "distinct (scan_order p)"
  by (simp add: scan_order_def)

lemma pickReadNode_first_usable:
  assumes "scan_order p = d @ x # r"
    and "\<forall>y\<in>set d. \<not> usable (nodes p ! y)"
    and "usable (nodes p ! x)"
  shows "pickReadNode p = (Some x, p\<lparr>readIdx := (x + 1) mod length (nodes p)\<rparr>)"
proof -
  have "dropWhile (\<lambda>x. \<not> usable (nodes p ! x)) (d @ x # r) = x # r"
    using assms(2,3) by (simp add: dropWhile_append2)
  then show ?thesis
    using assms(1) by (simp add: pickReadNode_def read_scan_dropWhile)
qed

lemma fst_scan_result_None:
  "fst (case xs of [] \<Rightarrow> (None, a) | x # _ \<Rightarrow> (Some x, g x)) = None \<longleftrightarrow> xs = []"
  by (cases xs) simp_all

lemma pickReadNode_None_iff:
  "fst (pickReadNode p) = None \<longleftrightarrow> (\<forall>i<length (nodes p). \<not> usable (nodes p ! i))"
proof -
  have "fst (pickReadNode p) = None
        \<longleftrightarrow> dropWhile (\<lambda>x. \<not> usable (nodes p ! x)) (scan_order p) = []"
    unfolding pickReadNode_def read_scan_dropWhile drop_0 by (rule fst_scan_result_None)
  also have "\<dots> \<longleftrightarrow> (\<forall>x\<in>set (scan_order p). \<not> usable (nodes p ! x))"
    by (simp add: dropWhile_eq_Nil_conv)
  finally show ?thesis by auto
qed

lemma nodes_pickReadNode [simp]: "nodes (snd (pickReadNode p)) = nodes p"
  by (simp add: pickReadNode_def read_scan_dropWhile split: list.split)

lemma nodes_read_calls [simp]: "nodes (snd (read_calls m p)) = nodes p"
proof (induction m arbitrary: p)
  case 0
  show ?case by simp
next
  case (Suc m)
  obtain r p' where pk: "pickReadNode p = (r, p')" by (cases "pickReadNode p")
  then have "nodes p' = nodes p"
    using nodes_pickReadNode [of p] by simp
  with Suc [of p'] pk show ?case
    by (cases "read_calls m p'") simp
qed

lemma read_calls_follow_scan_order:
  assumes "scan_order p = ys @ zs"
    and "m \<le> length (filter (\<lambda>i. usable (nodes p ! i)) ys)"
  shows "fst (read_calls m p) = map Some (take m (filter (\<lambda>i. usable (nodes p ! i)) ys))"
  using assms
proof (induction m arbitrary: p ys zs)
  case 0
  show ?case by simp
next
  case (Suc m)
  let ?L = "\<lambda>i. usable (nodes p ! i)"
  from Suc.prems(2) have "filter ?L ys \<noteq> []" by auto
  then have "\<exists>x\<in>set ys. ?L x"
    by (simp add: filter_empty_conv)
  then obtain d x r where ys: "ys = d @ x # r" and x: "?L x" and d: "\<forall>y\<in>set d. \<not> ?L y"
    using split_list_first_prop [of ys ?L] by blast
  let ?p' = "p\<lparr>readIdx := (x + 1) mod length (nodes p)\<rparr>"
  have so: "scan_order p = d @ x # (r @ zs)"
    using Suc.prems(1) ys by simp
  have pk: "pickReadNode p = (Some x, ?p')"
    using so d x by (rule pickReadNode_first_usable)
  have so': "scan_order ?p' = r @ (zs @ d @ [x])"
    using scan_order_advance [OF so] by simp
  have fd: "filter ?L d = []"
    using d by (simp add: filter_empty_conv)
  have fys: "filter ?L ys = x # filter ?L r"
    using ys x fd by simp
  have m: "m \<le> length (filter (\<lambda>i. usable (nodes ?p' ! i)) r)"
    using Suc.prems(2) fys by simp
  have "fst (read_calls m ?p') = map Some (take m (filter (\<lambda>i. usable (nodes ?p' ! i)) r))"
    using so' m by (rule Suc.IH)
  then show ?case
    using pk fys by (cases "read_calls m ?p'") simp
qed

lemma read_calls_full_round:
  "fst (read_calls (length (live_positions p)) p)
     = map Some (filter (\<lambda>i. usable (nodes p ! i)) (scan_order p))"
proof -
  let ?L = "\<lambda>i. usable (nodes p ! i)"
  have "distinct (filter ?L (scan_order p))" "distinct (live_positions p)"
    by (simp_all add: live_positions_def)
  moreover have "set (filter ?L (scan_order p)) = set (live_positions p)"
    by (auto simp: live_positions_def)
  ultimately have len: "length (live_positions p) = length (filter ?L (scan_order p))"
    by (metis distinct_card)
  have "fst (read_calls (length (live_positions p)) p)
        = map Some (take (length (live_positions p)) (filter ?L (scan_order p)))"
    by (rule read_calls_follow_scan_order [where zs = "[]"]) (simp_all add: len)
  then show ?thesis by (simp add: len)
qed

lemma live_positions_read_calls [simp]:
  "live_positions (snd (read_calls m p)) = live_positions p"
  by (simp add: live_positions_def)

lemma length_live_positions:
  "length (live_positions p) = length (filter usable (nodes p))"
proof -
  have "distinct (live_positions p)"
    by (simp add: live_positions_def)
  then have "length (live_positions p) = card (set (live_positions p))"
    by (simp add: distinct_card)
  also have "set (live_positions p) = {i. i < length (nodes p) \<and> usable (nodes p ! i)}"
    by (auto simp: live_positions_def)
  also have "card \<dots> = length (filter usable (nodes p))"
    by (rule length_filter_conv_card [symmetric])
  finally show ?thesis .
qed


text \<open>A pool of three nodes, the first one dead.\<close>

definition sample_pool :: "nat EthClientPool" where
  "sample_pool =
     \<lparr>nodes = [\<lparr>URL = ''A'', Client = None, Alive = False\<rparr>,
               \<lparr>URL = ''B'', Client = Some 1, Alive = True\<rparr>,
               \<lparr>URL = ''C'', Client = Some 2, Alive = True\<rparr>],
      primaryIdx = 0, readIdx = 0\<rparr>"

lemma usable_eq_Alive:
  assumes "\<forall>node\<in>set (nodes p). Alive node \<longrightarrow> Client node \<noteq> None"
  shows "filter usable (nodes p) = filter Alive (nodes p)"
    and "i < length (nodes p) \<Longrightarrow> usable (nodes p ! i) = Alive (nodes p ! i)"
  using assms by (auto simp: usable_def intro!: filter_cong)

text \<open>
  Claim C2. In a pool whose alive nodes all have a client (the pool's invariant), let
  \<open>k\<close> be the number of alive nodes. After any number \<open>m\<close> of earlier calls, the next
  \<open>k\<close> calls of \<^verbatim>\<open>pickReadNode\<close> return \<open>k\<close> pairwise different nodes, and these are
  exactly the alive nodes. The selectors do not change liveness, so liveness is constant
  over the calls. \<^verbatim>\<open>pickReadNode\<close> returns \<^verbatim>\<open>nil\<close> exactly when no node is alive.
\<close>

theorem read_round_robin:
  assumes "\<forall>node\<in>set (nodes p). Alive node \<longrightarrow> Client node \<noteq> None"
  shows "length (fst (read_calls (length (filter Alive (nodes p))) (snd (read_calls m p))))
           = length (filter Alive (nodes p))
       \<and> distinct (fst (read_calls (length (filter Alive (nodes p))) (snd (read_calls m p))))
       \<and> set (fst (read_calls (length (filter Alive (nodes p))) (snd (read_calls m p))))
           = Some ` {i. i < length (nodes p) \<and> Alive (nodes p ! i)}
       \<and> (fst (pickReadNode p) = None \<longleftrightarrow> (\<forall>node\<in>set (nodes p). \<not> Alive node))"
proof -
  let ?q = "snd (read_calls m p)"
  let ?k = "length (filter Alive (nodes p))"
  let ?L = "\<lambda>i. usable (nodes p ! i)"
  have k: "?k = length (live_positions ?q)"
    by (simp add: length_live_positions usable_eq_Alive(1) [OF assms])
  have rs: "fst (read_calls ?k ?q) = map Some (filter ?L (scan_order ?q))"
    unfolding k using read_calls_full_round [of ?q] by simp
  have d: "distinct (filter ?L (scan_order ?q))"
    by simp
  have st: "set (filter ?L (scan_order ?q)) = {i. i < length (nodes p) \<and> Alive (nodes p ! i)}"
    using usable_eq_Alive(2) [OF assms] by auto
  have "length (filter ?L (scan_order ?q)) = card {i. i < length (nodes p) \<and> Alive (nodes p ! i)}"
    using d st by (metis distinct_card)
  then have len: "length (filter ?L (scan_order ?q)) = ?k"
    by (simp add: length_filter_conv_card)
  have none: "fst (pickReadNode p) = None \<longleftrightarrow> (\<forall>node\<in>set (nodes p). \<not> Alive node)"
  proof -
    have "(\<forall>i<length (nodes p). \<not> usable (nodes p ! i))
          \<longleftrightarrow> (\<forall>i<length (nodes p). \<not> Alive (nodes p ! i))"
      using usable_eq_Alive(2) [OF assms] by simp
    also have "\<dots> \<longleftrightarrow> (\<forall>node\<in>set (nodes p). \<not> Alive node)"
      by (simp add: all_set_conv_all_nth)
    finally show ?thesis
      by (simp only: pickReadNode_None_iff)
  qed
  show ?thesis
    unfolding rs using d st len none
    by (simp add: distinct_map inj_on_def)
qed

theorem read_round_robin_witness:
  "fst (read_calls 1 sample_pool) = [Some 1]
   \<and> fst (read_calls 2 (snd (read_calls 1 sample_pool))) = [Some 2, Some 1]
   \<and> length (filter Alive (nodes sample_pool)) = 2
   \<and> set (fst (read_calls 2 (snd (read_calls 1 sample_pool))))
       = Some ` {i. i < length (nodes sample_pool) \<and> Alive (nodes sample_pool ! i)}
   \<and> fst (pickReadNode sample_pool) \<noteq> None"
proof -
  have h: "\<forall>node\<in>set (nodes sample_pool). Alive node \<longrightarrow> Client node \<noteq> None"
    by (simp add: sample_pool_def)
  have k: "length (filter Alive (nodes sample_pool)) = 2"
    by (simp add: sample_pool_def)
  have a: "\<exists>node\<in>set (nodes sample_pool). Alive node"
    by (simp add: sample_pool_def)
  have r1: "fst (read_calls 1 sample_pool) = [Some 1]"
    by code_simp
  have r2: "fst (read_calls 2 (snd (read_calls 1 sample_pool))) = [Some 2, Some 1]"
    by code_simp
  show ?thesis
    using read_round_robin [OF h, of 1] k a r1 r2 by simp
qed


subsection \<open>The sticky primary\<close>

lemma primary_scan_find:
  "primary_scan p i =
     (case find (\<lambda>j. usable (nodes p ! j)) [i..<length (nodes p)] of
        None \<Rightarrow> (None, p)
      | Some j \<Rightarrow> (Some j, p\<lparr>primaryIdx := j\<rparr>))"
proof (induction p i rule: primary_scan.induct)
  case (1 p i)
  show ?case
  proof (cases "i < length (nodes p)")
    case False
    then show ?thesis by (simp add: primary_scan.simps [of p i])
  next
    case True
    then have u: "[i..<length (nodes p)] = i # [Suc i..<length (nodes p)]"
      by (simp add: upt_conv_Cons)
    show ?thesis
    proof (cases "usable (nodes p ! i)")
      case True
      with \<open>i < length (nodes p)\<close> u show ?thesis
        by (simp add: primary_scan.simps [of p i])
    next
      case False
      with \<open>i < length (nodes p)\<close> u "1.IH" show ?thesis
        by (simp add: primary_scan.simps [of p i])
    qed
  qed
qed

lemma pickPrimaryNode_sticky:
  assumes "primaryIdx q < length (nodes q)" and "usable (nodes q ! primaryIdx q)"
  shows "pickPrimaryNode q = (Some (primaryIdx q), q)"
proof -
  from assms(1) have "length (nodes q) > 0" by auto
  with assms show ?thesis by (simp add: pickPrimaryNode_def)
qed

lemma pickPrimaryNode_result:
  assumes "pickPrimaryNode p = (Some b, p1)"
  shows "primaryIdx p1 = b \<and> b < length (nodes p1) \<and> usable (nodes p1 ! b) \<and> nodes p1 = nodes p"
proof (cases "length (nodes p) > 0 \<and> primaryIdx p < length (nodes p) \<and> usable (nodes p ! primaryIdx p)")
  case True
  with assms show ?thesis by (auto simp: pickPrimaryNode_def)
next
  case False
  then have "pickPrimaryNode p = primary_scan p 0"
    unfolding pickPrimaryNode_def by (rule if_not_P)
  with assms have "primary_scan p 0 = (Some b, p1)"
    by simp
  then obtain j where f: "find (\<lambda>j. usable (nodes p ! j)) [0..<length (nodes p)] = Some j"
    and r: "b = j" "p1 = p\<lparr>primaryIdx := j\<rparr>"
    by (auto simp: primary_scan_find split: option.splits)
  from f have "j < length (nodes p) \<and> usable (nodes p ! j)"
    by (auto simp: find_Some_iff)
  with r show ?thesis by simp
qed

lemma length_mark_loop [simp]: "length (mark_loop ns url) = length ns"
  by (induction ns) simp_all

lemma usable_mark_loop:
  "i < length ns \<Longrightarrow> usable (mark_loop ns url ! i) \<Longrightarrow> usable (ns ! i)"
proof (induction ns arbitrary: i)
  case Nil
  then show ?case by simp
next
  case (Cons node rest)
  then show ?case
    by (cases i) (auto simp: usable_def split: if_splits)
qed

lemma primaryIdx_pickReadNode [simp]: "primaryIdx (snd (pickReadNode p)) = primaryIdx p"
  unfolding pickReadNode_def read_scan_dropWhile by (simp split: list.split)

lemma nodes_pickPrimaryNode [simp]: "nodes (snd (pickPrimaryNode p)) = nodes p"
  by (simp add: pickPrimaryNode_def primary_scan_find split: option.split)

lemma length_nodes_pool_step [simp]: "length (nodes (pool_step p x)) = length (nodes p)"
  by (cases x) (simp_all add: markNodeDead_def)

lemma usable_pool_step:
  "b < length (nodes p) \<Longrightarrow> usable (nodes (pool_step p x) ! b) \<Longrightarrow> usable (nodes p ! b)"
  by (cases x) (auto simp: markNodeDead_def dest: usable_mark_loop)

lemma length_nodes_pool_run [simp]: "length (nodes (pool_run p xs)) = length (nodes p)"
  by (induction xs arbitrary: p) simp_all

lemma usable_pool_run:
  "b < length (nodes p) \<Longrightarrow> usable (nodes (pool_run p xs) ! b) \<Longrightarrow> usable (nodes p ! b)"
proof (induction xs arbitrary: p)
  case Nil
  then show ?case by simp
next
  case (Cons x xs)
  from Cons.prems have "usable (nodes (pool_step p x) ! b)"
    using Cons.IH [of "pool_step p x"] by simp
  with Cons.prems(1) show ?case by (rule usable_pool_step)
qed

lemma primaryIdx_pool_step:
  assumes "primaryIdx p < length (nodes p)" and "usable (nodes p ! primaryIdx p)"
  shows "primaryIdx (pool_step p x) = primaryIdx p"
proof (cases x)
  case PickPrimary
  with assms show ?thesis by (simp add: pickPrimaryNode_sticky)
qed (simp_all add: markNodeDead_def)

lemma primaryIdx_pool_run:
  assumes "primaryIdx p < length (nodes p)"
    and "usable (nodes (pool_run p xs) ! primaryIdx p)"
  shows "primaryIdx (pool_run p xs) = primaryIdx p"
  using assms
proof (induction xs arbitrary: p)
  case Nil
  then show ?case by simp
next
  case (Cons x xs)
  let ?p' = "pool_step p x"
  have end_usable: "usable (nodes (pool_run ?p' xs) ! primaryIdx p)"
    using Cons.prems(2) by simp
  then have mid: "usable (nodes ?p' ! primaryIdx p)"
    using Cons.prems(1) usable_pool_run [of "primaryIdx p" ?p' xs] by simp
  then have start: "usable (nodes p ! primaryIdx p)"
    using Cons.prems(1) by (rule usable_pool_step [rotated])
  have same: "primaryIdx ?p' = primaryIdx p"
    using Cons.prems(1) start by (rule primaryIdx_pool_step)
  have "primaryIdx (pool_run ?p' xs) = primaryIdx ?p'"
    by (rule Cons.IH) (use same Cons.prems(1) end_usable in simp_all)
  with same show ?case by simp
qed


text \<open>
  Claim C3. When \<^verbatim>\<open>pickPrimaryNode\<close> has returned node \<open>b\<close> (after a fail-over or
  not), \<open>primaryIdx\<close> is \<open>b\<close>; after any further pool operations (reads, primary
  selections, \<^verbatim>\<open>markNodeDead\<close> of any endpoint) that leave \<open>b\<close> usable, the next call
  returns \<open>b\<close> again and changes nothing. A usable primary is returned whatever the
  state of the other nodes, so also when a node of smaller position is alive. When the
  primary is not usable, the call returns the first usable position counted from 0 and
  makes it the primary, or returns \<^verbatim>\<open>nil\<close> when there is none.
\<close>

theorem primary_sticky_until_dead:
  "(pickPrimaryNode p = (Some b, p1) \<longrightarrow>
        primaryIdx p1 = b \<and> usable (nodes p1 ! b)
      \<and> (usable (nodes (pool_run p1 ops) ! b) \<longrightarrow>
            pickPrimaryNode (pool_run p1 ops) = (Some b, pool_run p1 ops)))
   \<and> (primaryIdx q < length (nodes q) \<and> usable (nodes q ! primaryIdx q) \<longrightarrow>
        pickPrimaryNode q = (Some (primaryIdx q), q))
   \<and> (primaryIdx q' < length (nodes q') \<and> \<not> usable (nodes q' ! primaryIdx q') \<longrightarrow>
        pickPrimaryNode q' =
          (case find (\<lambda>i. usable (nodes q' ! i)) [0..<length (nodes q')] of
             None \<Rightarrow> (None, q')
           | Some i \<Rightarrow> (Some i, q'\<lparr>primaryIdx := i\<rparr>)))"
proof (intro conjI impI)
  assume pk: "pickPrimaryNode p = (Some b, p1)"
  then have r: "primaryIdx p1 = b" "b < length (nodes p1)" "usable (nodes p1 ! b)"
    using pickPrimaryNode_result [of p b p1] by auto
  show "primaryIdx p1 = b" "usable (nodes p1 ! b)"
    by (fact r)+
  assume live: "usable (nodes (pool_run p1 ops) ! b)"
  have same: "primaryIdx (pool_run p1 ops) = primaryIdx p1"
    using r live by (intro primaryIdx_pool_run) simp_all
  have "pickPrimaryNode (pool_run p1 ops) = (Some (primaryIdx (pool_run p1 ops)), pool_run p1 ops)"
    using r live same by (intro pickPrimaryNode_sticky) simp_all
  with same r show "pickPrimaryNode (pool_run p1 ops) = (Some b, pool_run p1 ops)"
    by simp
next
  assume "primaryIdx q < length (nodes q) \<and> usable (nodes q ! primaryIdx q)"
  then show "pickPrimaryNode q = (Some (primaryIdx q), q)"
    by (simp add: pickPrimaryNode_sticky)
next
  assume "primaryIdx q' < length (nodes q') \<and> \<not> usable (nodes q' ! primaryIdx q')"
  then have "pickPrimaryNode q' = primary_scan q' 0"
    by (simp add: pickPrimaryNode_def)
  then show "pickPrimaryNode q' =
          (case find (\<lambda>i. usable (nodes q' ! i)) [0..<length (nodes q')] of
             None \<Rightarrow> (None, q')
           | Some i \<Rightarrow> (Some i, q'\<lparr>primaryIdx := i\<rparr>))"
    by (simp add: primary_scan_find)
qed

text \<open>The sample pool after the fail-over to position 1, with node 0 reachable again.\<close>

definition sample_pool_recovered :: "nat EthClientPool" where
  "sample_pool_recovered =
     \<lparr>nodes = [\<lparr>URL = ''A'', Client = Some 0, Alive = True\<rparr>,
               \<lparr>URL = ''B'', Client = Some 1, Alive = True\<rparr>,
               \<lparr>URL = ''C'', Client = Some 2, Alive = True\<rparr>],
      primaryIdx = 1, readIdx = 0\<rparr>"

theorem primary_sticky_until_dead_witness:
  "pickPrimaryNode sample_pool = (Some 1, sample_pool\<lparr>primaryIdx := 1\<rparr>)
   \<and> usable (nodes (pool_run (sample_pool\<lparr>primaryIdx := 1\<rparr>) [PickRead, MarkDead ''C'', PickPrimary]) ! 1)
   \<and> fst (pickPrimaryNode
          (pool_run (sample_pool\<lparr>primaryIdx := 1\<rparr>) [PickRead, MarkDead ''C'', PickPrimary])) = Some 1
   \<and> usable (nodes sample_pool_recovered ! 0)
   \<and> pickPrimaryNode sample_pool_recovered = (Some 1, sample_pool_recovered)
   \<and> \<not> usable (nodes (markNodeDead sample_pool_recovered ''B'') ! 1)
   \<and> fst (pickPrimaryNode (markNodeDead sample_pool_recovered ''B'')) = Some 0"
proof -
  let ?p1 = "sample_pool\<lparr>primaryIdx := 1\<rparr>"
  let ?ops = "[PickRead, MarkDead ''C'', PickPrimary]"
  let ?q' = "markNodeDead sample_pool_recovered ''B''"
  have a: "pickPrimaryNode sample_pool = (Some 1, ?p1)"
    by code_simp
  have b: "usable (nodes (pool_run ?p1 ?ops) ! 1)"
    by code_simp
  have c: "primaryIdx sample_pool_recovered < length (nodes sample_pool_recovered)"
       "usable (nodes sample_pool_recovered ! primaryIdx sample_pool_recovered)"
       "primaryIdx sample_pool_recovered = 1"
       "usable (nodes sample_pool_recovered ! 0)"
    by code_simp+
  have d: "primaryIdx ?q' < length (nodes ?q')" "\<not> usable (nodes ?q' ! primaryIdx ?q')"
       "primaryIdx ?q' = 1"
       "find (\<lambda>i. usable (nodes ?q' ! i)) [0..<length (nodes ?q')] = Some 0"
    by code_simp+
  show ?thesis
    using primary_sticky_until_dead [where p = sample_pool and b = 1 and ?p1.0 = ?p1
        and ops = ?ops and q = sample_pool_recovered and q' = ?q'] a b c d
    by simp
qed


subsection \<open>Pool construction\<close>

text \<open>The record \<^verbatim>\<open>NewEthClientPool\<close> appends for a non-blank endpoint.\<close>

definition dial_record :: "(string \<Rightarrow> 'c option) \<Rightarrow> string \<Rightarrow> 'c NodeStatus" where
  "dial_record dial u =
     (case dial u of
        None \<Rightarrow> \<lparr>URL = u, Client = None, Alive = False\<rparr>
      | Some client \<Rightarrow> \<lparr>URL = u, Client = Some client, Alive = True\<rparr>)"

lemma dial_loop_records:
  "dial_loop dial acc urls
     = acc @ map (dial_record dial) (filter (\<lambda>u. u \<noteq> []) (map TrimSpace urls))"
  by (induction urls arbitrary: acc) (simp_all add: Let_def dial_record_def split: option.split)

lemma NewEthClientPool_fails_iff:
  "(\<exists>e. NewEthClientPool dial urls = Inl e) \<longleftrightarrow> (\<forall>raw\<in>set urls. TrimSpace raw = [])"
  by (auto simp: NewEthClientPool_def Let_def dial_loop_records filter_empty_conv)

lemma NewEthClientPool_invariant:
  assumes "NewEthClientPool dial urls = Inr p"
  shows "\<forall>node\<in>set (nodes p). Alive node \<longrightarrow> Client node \<noteq> None"
  using assms
  by (auto simp: NewEthClientPool_def Let_def dial_loop_records dial_record_def
           split: if_splits option.splits)

lemma invariant_mark_loop:
  assumes "\<forall>node\<in>set ns. Alive node \<longrightarrow> Client node \<noteq> None"
  shows "\<forall>node\<in>set (mark_loop ns url). Alive node \<longrightarrow> Client node \<noteq> None"
  using assms by (induction ns) auto

lemma invariant_pool_run:
  assumes "\<forall>node\<in>set (nodes p). Alive node \<longrightarrow> Client node \<noteq> None"
  shows "\<forall>node\<in>set (nodes (pool_run p xs)). Alive node \<longrightarrow> Client node \<noteq> None"
  using assms
proof (induction xs arbitrary: p)
  case Nil
  then show ?case by simp
next
  case (Cons x xs)
  have "\<forall>node\<in>set (nodes (pool_step p x)). Alive node \<longrightarrow> Client node \<noteq> None"
  proof (cases x)
    case (MarkDead url)
    with Cons.prems invariant_mark_loop [of "nodes p" url] show ?thesis
      by (simp add: markNodeDead_def)
  qed (use Cons.prems in simp_all)
  then show ?case
    using Cons.IH by simp
qed

text \<open>
  Claim C1, at the input where it fails: one endpoint whose dial fails (a WebSocket
  endpoint with nothing listening). The dead record is appended to \<^verbatim>\<open>nodes\<close>, so the
  test \<^verbatim>\<open>len(nodes) == 0\<close> guarding the error "no node connected successfully" does
  not fire, and a pool without any live node is returned. (By
  \<open>NewEthClientPool_fails_iff\<close> construction fails only when every endpoint is blank.)
\<close>

theorem NewEthClientPool_succeeds_without_live_node:
  "NewEthClientPool (\<lambda>u. None) [''ws://127.0.0.1:1'']
     = Inr \<lparr>nodes = [\<lparr>URL = ''ws://127.0.0.1:1'', Client = (None :: nat option), Alive = False\<rparr>],
            primaryIdx = 0, readIdx = 0\<rparr>"
proof -
  have "TrimSpace ''ws://127.0.0.1:1'' = ''ws://127.0.0.1:1''"
    by code_simp
  then show ?thesis
    by (simp add: NewEthClientPool_def)
qed


section \<open>The reconnecting subscription\<close>

text \<open>
  \<^verbatim>\<open>runWithReconnect\<close> blocks on the network, on a timer and on the context. The
  model is driven by what the environment does at each blocking point, and returns
  the calls the loop makes, in order.

  How a \<^verbatim>\<open>sleepWithBackoff\<close> ends: the timer fires, or \<^verbatim>\<open>ctx.Done()\<close> is ready.
\<close>

datatype sleep_end = TimerFired | SleepCtxDone

text \<open>
  How the inner subscription loop ends: \<^verbatim>\<open>sub.Err()\<close> delivers an error (followed by
  a backoff sleep), or \<^verbatim>\<open>ctx.Done()\<close> is ready.
\<close>

datatype stream_end = SubErr sleep_end | StreamCtxDone

text \<open>
  One pass of the outer loop, as the environment shapes it: the context is already
  done at the non-blocking check on top; the dial fails; the dial succeeds and
  \<^verbatim>\<open>SubscribeNewHead\<close> fails; or the subscription is established and delivers the
  given headers (\<open>None\<close> is a \<^verbatim>\<open>nil\<close> header) until it ends.
\<close>

datatype 'h round =
    CtxDoneAtTop
  | DialFailed sleep_end
  | SubscribeFailed sleep_end
  | Streamed "'h option list" stream_end

text \<open>
  The calls of the loop: \<^verbatim>\<open>ethclient.DialContext\<close> (with the attempt number logged
  before it), \<^verbatim>\<open>SubscribeNewHead\<close>, the print of a block, \<^verbatim>\<open>client.Close\<close>, a
  sleep of so many seconds with the way it ended, and the return of
  \<^verbatim>\<open>runWithReconnect\<close>. Other log lines are left out.
\<close>

datatype 'h action =
    Connect "64 word"
  | Subscribe
  | PrintBlock 'h
  | CloseClient
  | Sleep nat sleep_end
  | Return

text \<open>
  \<^verbatim>\<open>sec := int(math.Min(60, math.Pow(2, float64(attempt))))\<close> for the 64-bit
  \<^verbatim>\<open>attempt\<close>. The floating-point operations are exact here: for an integer
  exponent \<^verbatim>\<open>math.Pow(2, n)\<close> is the power of two itself (\<^verbatim>\<open>+Inf\<close> beyond the
  range, where the minimum is 60 anyway), and for a negative exponent it is below 1,
  which the conversion truncates to 0.
\<close>

definition backoff_seconds :: "64 word \<Rightarrow> nat" where
  "backoff_seconds attempt =
     (if sint attempt < 0 then 0 else min 60 (2 ^ nat (sint attempt)))"

definition sleepWithBackoff :: "64 word \<Rightarrow> sleep_end \<Rightarrow> 'h action" where
  "sleepWithBackoff attempt se = Sleep (backoff_seconds attempt) se"

text \<open>The inner loop over the delivered headers: a \<^verbatim>\<open>nil\<close> header is skipped.\<close>

fun print_headers :: "'h option list \<Rightarrow> 'h action list" where
  "print_headers [] = []"
| "print_headers (None # hs) = print_headers hs"
| "print_headers (Some h # hs) = PrintBlock h # print_headers hs"

text \<open>
  The outer loop, with the value of \<^verbatim>\<open>attempt\<close> (\<^verbatim>\<open>attempt++\<close> wraps around, as
  addition on words does) and whether the context is known to be done. A context
  stays done once it is done (the channel \<^verbatim>\<open>ctx.Done()\<close> is closed), so after a
  sleep that ended on it the check on top of the loop returns. When the rounds run out
  and the context is not done, the loop is still running.
\<close>

fun reconnect_loop :: "64 word \<Rightarrow> bool \<Rightarrow> 'h round list \<Rightarrow> 'h action list" where
  "reconnect_loop attempt True rs = [Return]"
| "reconnect_loop attempt False [] = []"
| "reconnect_loop attempt False (CtxDoneAtTop # rs) = [Return]"
| "reconnect_loop attempt False (DialFailed se # rs) =
     Connect (attempt + 1) # sleepWithBackoff (attempt + 1) se
       # reconnect_loop (attempt + 1) (se = SleepCtxDone) rs"
| "reconnect_loop attempt False (SubscribeFailed se # rs) =
     Connect (attempt + 1) # Subscribe # CloseClient # sleepWithBackoff (attempt + 1) se
       # reconnect_loop (attempt + 1) (se = SleepCtxDone) rs"
| "reconnect_loop attempt False (Streamed hs (SubErr se) # rs) =
     Connect (attempt + 1) # Subscribe # print_headers hs
       @ CloseClient # sleepWithBackoff (attempt + 1) se
       # reconnect_loop (attempt + 1) (se = SleepCtxDone) rs"
| "reconnect_loop attempt False (Streamed hs StreamCtxDone # rs) =
     Connect (attempt + 1) # Subscribe # print_headers hs @ [CloseClient, Return]"

definition runWithReconnect :: "'h round list \<Rightarrow> 'h action list" where
  "runWithReconnect rs = reconnect_loop 0 False rs"

text \<open>The sleep durations of a run, and the attempt numbers of its dials, in order.\<close>

fun waits :: "'h action list \<Rightarrow> nat list" where
  "waits [] = []"
| "waits (Sleep d se # acts) = d # waits acts"
| "waits (a # acts) = waits acts"

fun attempts :: "'h action list \<Rightarrow> 64 word list" where
  "attempts [] = []"
| "attempts (Connect a # acts) = a # attempts acts"
| "attempts (a # acts) = attempts acts"


lemma waits_append [simp]: "waits (xs @ ys) = waits xs @ waits ys"
  by (induction xs rule: waits.induct) simp_all

lemma attempts_append [simp]: "attempts (xs @ ys) = attempts xs @ attempts ys"
  by (induction xs rule: attempts.induct) simp_all

lemma waits_print_headers [simp]: "waits (print_headers hs) = []"
  by (induction hs rule: print_headers.induct) simp_all

lemma attempts_print_headers [simp]: "attempts (print_headers hs) = []"
  by (induction hs rule: print_headers.induct) simp_all

lemma backoff_seconds_of_nat:
  assumes "j < 2 ^ 63"
  shows "backoff_seconds (of_nat j) = min 60 (2 ^ j)"
proof -
  have "signed_take_bit 63 (int j) = int j"
    using assms by (intro signed_take_bit_int_eq_self) simp_all
  then have "sint (of_nat j :: 64 word) = int j"
    by (simp add: signed_of_nat)
  then show ?thesis
    by (simp add: backoff_seconds_def)
qed


lemma of_nat_Suc_word: "(of_nat a :: 64 word) + 1 = of_nat (Suc a)"
  by simp

text \<open>\<open>k\<close> consecutive delays, and \<open>k\<close> consecutive attempt numbers, from \<open>n\<close> on.\<close>

definition backoff_schedule :: "nat \<Rightarrow> nat \<Rightarrow> nat list" where
  "backoff_schedule n k = map (\<lambda>j. min 60 (2 ^ j)) [n..<n + k]"

definition attempt_numbers :: "nat \<Rightarrow> nat \<Rightarrow> 64 word list" where
  "attempt_numbers n k = map of_nat [n..<n + k]"

lemma length_backoff_schedule [simp]: "length (backoff_schedule n k) = k"
  by (simp add: backoff_schedule_def)

lemma length_attempt_numbers [simp]: "length (attempt_numbers n k) = k"
  by (simp add: attempt_numbers_def)

lemma backoff_schedule_Suc:
  "backoff_schedule n (Suc k) = min 60 (2 ^ n) # backoff_schedule (Suc n) k"
  by (simp add: backoff_schedule_def upt_conv_Cons del: upt_Suc)

lemma attempt_numbers_Suc:
  "attempt_numbers n (Suc k) = of_nat n # attempt_numbers (Suc n) k"
  by (simp add: attempt_numbers_def upt_conv_Cons del: upt_Suc)

lemma waits_round:
  fixes X rest :: "'h action list"
  assumes att: "attempt = of_nat a"
    and bound: "a + length (r # rs) < 2 ^ 63"
    and w: "waits X = backoff_seconds (attempt + 1) # waits rest"
    and IH: "\<And>a'. attempt + 1 = of_nat a' \<Longrightarrow> a' + length rs < 2 ^ 63 \<Longrightarrow>
               waits rest = backoff_schedule (Suc a') (length (waits rest))"
  shows "waits X = backoff_schedule (Suc a) (length (waits X))"
proof -
  have next_attempt: "attempt + 1 = of_nat (Suc a)"
    using att by simp
  have small: "Suc a < 2 ^ 63" "Suc a + length rs < 2 ^ 63"
    using bound by simp_all
  have b: "backoff_seconds (attempt + 1) = min 60 (2 ^ Suc a)"
    unfolding next_attempt using small(1) by (rule backoff_seconds_of_nat)
  have "waits rest = backoff_schedule (Suc (Suc a)) (length (waits rest))"
    using next_attempt small(2) by (rule IH)
  then have "backoff_seconds (attempt + 1) # waits rest
      = backoff_schedule (Suc a) (Suc (length (waits rest)))"
    unfolding backoff_schedule_Suc b by simp
  then show ?thesis
    unfolding w by simp
qed

lemma reconnect_loop_waits:
  "attempt = of_nat a \<Longrightarrow> a + length rs < 2 ^ 63 \<Longrightarrow>
   waits (reconnect_loop attempt c rs)
     = backoff_schedule (Suc a) (length (waits (reconnect_loop attempt c rs)))"
proof (induction attempt c rs arbitrary: a rule: reconnect_loop.induct)
  case (4 attempt se rs)
  show ?case
  proof (rule waits_round [OF "4.prems"])
    show "waits (reconnect_loop attempt False (DialFailed se # rs))
        = backoff_seconds (attempt + 1) # waits (reconnect_loop (attempt + 1) (se = SleepCtxDone) rs)"
      by (simp add: sleepWithBackoff_def)
  qed (rule "4.IH")
next
  case (5 attempt se rs)
  show ?case
  proof (rule waits_round [OF "5.prems"])
    show "waits (reconnect_loop attempt False (SubscribeFailed se # rs))
        = backoff_seconds (attempt + 1) # waits (reconnect_loop (attempt + 1) (se = SleepCtxDone) rs)"
      by (simp add: sleepWithBackoff_def)
  qed (rule "5.IH")
next
  case (6 attempt hs se rs)
  show ?case
  proof (rule waits_round [OF "6.prems"])
    show "waits (reconnect_loop attempt False (Streamed hs (SubErr se) # rs))
        = backoff_seconds (attempt + 1) # waits (reconnect_loop (attempt + 1) (se = SleepCtxDone) rs)"
      by (simp add: sleepWithBackoff_def)
  qed (rule "6.IH")
qed (simp_all add: backoff_schedule_def)

lemma attempts_round:
  fixes X rest :: "'h action list"
  assumes att: "attempt = of_nat a"
    and w: "attempts X = (attempt + 1) # attempts rest"
    and IH: "\<And>a'. attempt + 1 = of_nat a' \<Longrightarrow>
               attempts rest = attempt_numbers (Suc a') (length (attempts rest))"
  shows "attempts X = attempt_numbers (Suc a) (length (attempts X))"
proof -
  have next_attempt: "attempt + 1 = of_nat (Suc a)"
    using att by simp
  then have "attempts rest = attempt_numbers (Suc (Suc a)) (length (attempts rest))"
    by (rule IH)
  then have "(attempt + 1) # attempts rest
      = attempt_numbers (Suc a) (Suc (length (attempts rest)))"
    unfolding attempt_numbers_Suc next_attempt by simp
  then show ?thesis
    unfolding w by simp
qed

lemma reconnect_loop_attempts:
  "attempt = of_nat a \<Longrightarrow>
   attempts (reconnect_loop attempt c rs)
     = attempt_numbers (Suc a) (length (attempts (reconnect_loop attempt c rs)))"
proof (induction attempt c rs arbitrary: a rule: reconnect_loop.induct)
  case (4 attempt se rs)
  show ?case
  proof (rule attempts_round [OF "4.prems"])
    show "attempts (reconnect_loop attempt False (DialFailed se # rs))
        = (attempt + 1) # attempts (reconnect_loop (attempt + 1) (se = SleepCtxDone) rs)"
      by (simp add: sleepWithBackoff_def)
  qed (rule "4.IH")
next
  case (5 attempt se rs)
  show ?case
  proof (rule attempts_round [OF "5.prems"])
    show "attempts (reconnect_loop attempt False (SubscribeFailed se # rs))
        = (attempt + 1) # attempts (reconnect_loop (attempt + 1) (se = SleepCtxDone) rs)"
      by (simp add: sleepWithBackoff_def)
  qed (rule "5.IH")
next
  case (6 attempt hs se rs)
  show ?case
  proof (rule attempts_round [OF "6.prems"])
    show "attempts (reconnect_loop attempt False (Streamed hs (SubErr se) # rs))
        = (attempt + 1) # attempts (reconnect_loop (attempt + 1) (se = SleepCtxDone) rs)"
      by (simp add: sleepWithBackoff_def)
  qed (rule "6.IH")
next
  case (7 attempt hs rs)
  then show ?case
    using attempt_numbers_Suc [of "Suc a" 0] by (simp add: attempt_numbers_def)
qed (simp_all add: attempt_numbers_def)

lemma backoff_mono: "i \<le> j \<Longrightarrow> min (60::nat) (2 ^ i) \<le> min 60 (2 ^ j)"
  by (simp add: min.coboundedI2 power_increasing)

lemma sorted_backoff_schedule: "sorted (backoff_schedule n k)"
  unfolding backoff_schedule_def
  by (auto simp: sorted_iff_nth_mono simp del: upt_Suc intro!: min.coboundedI2 power_increasing)

lemma backoff_schedule_le: "d \<in> set (backoff_schedule n k) \<Longrightarrow> d \<le> 60"
  by (auto simp: backoff_schedule_def)


text \<open>After every sleep that ended on the done context, the run only returns.\<close>

definition stops_after_cancelled_wait :: "'h action list \<Rightarrow> bool" where
  "stops_after_cancelled_wait acts =
     (\<forall>i d. i < length acts \<longrightarrow> acts ! i = Sleep d SleepCtxDone \<longrightarrow> drop (Suc i) acts = [Return])"

lemma stops_Nil [simp]: "stops_after_cancelled_wait []"
  by (simp add: stops_after_cancelled_wait_def)

lemma stops_Cons:
  assumes "\<And>d. a \<noteq> Sleep d SleepCtxDone" and "stops_after_cancelled_wait acts"
  shows "stops_after_cancelled_wait (a # acts)"
  unfolding stops_after_cancelled_wait_def
proof (intro allI impI)
  fix i d
  assume i: "i < length (a # acts)" and at: "(a # acts) ! i = Sleep d SleepCtxDone"
  show "drop (Suc i) (a # acts) = [Return]"
  proof (cases i)
    case 0
    with at assms(1) show ?thesis by simp
  next
    case (Suc j)
    with i at assms(2) show ?thesis
      by (simp add: stops_after_cancelled_wait_def)
  qed
qed

lemma stops_cancelled: "stops_after_cancelled_wait [Sleep d se, Return]"
  by (auto simp: stops_after_cancelled_wait_def less_Suc_eq)

lemma stops_print_headers:
  "stops_after_cancelled_wait acts \<Longrightarrow> stops_after_cancelled_wait (print_headers hs @ acts)"
  by (induction hs rule: print_headers.induct) (simp_all add: stops_Cons)

lemma stops_sleep:
  assumes "stops_after_cancelled_wait (reconnect_loop attempt (se = SleepCtxDone) rs)"
  shows "stops_after_cancelled_wait
           (sleepWithBackoff a se # reconnect_loop attempt (se = SleepCtxDone) rs)"
proof (cases se)
  case TimerFired
  with assms show ?thesis
    by (simp add: sleepWithBackoff_def stops_Cons)
next
  case SleepCtxDone
  then show ?thesis
    by (simp add: sleepWithBackoff_def stops_cancelled)
qed

lemma reconnect_loop_stops:
  "stops_after_cancelled_wait (reconnect_loop attempt c rs)"
proof (induction attempt c rs rule: reconnect_loop.induct)
  case (4 attempt se rs)
  then show ?case by (simp add: stops_Cons stops_sleep)
next
  case (5 attempt se rs)
  then show ?case by (simp add: stops_Cons stops_sleep)
next
  case (6 attempt hs se rs)
  then show ?case by (simp add: stops_Cons stops_sleep stops_print_headers)
next
  case (7 attempt hs rs)
  have "stops_after_cancelled_wait [CloseClient, Return :: 'a action]"
    by (simp add: stops_Cons)
  then show ?case by (simp add: stops_Cons stops_print_headers)
qed (simp_all add: stops_Cons)

text \<open>
  A round that fails (the dial, the subscription, or the established stream) ends in
  a backoff sleep; \<open>failure_end\<close> tells how that sleep ended, and is \<open>None\<close> for a
  round that ends the loop instead. A round is retried when the timer ended its
  sleep, so that the loop goes on to the next round.
\<close>

fun failure_end :: "'h round \<Rightarrow> sleep_end option" where
  "failure_end CtxDoneAtTop = None"
| "failure_end (DialFailed se) = Some se"
| "failure_end (SubscribeFailed se) = Some se"
| "failure_end (Streamed hs (SubErr se)) = Some se"
| "failure_end (Streamed hs StreamCtxDone) = None"

definition retried :: "'h round \<Rightarrow> bool" where
  "retried r = (failure_end r = Some TimerFired)"

text \<open>
  Every sleep of a run lasts \<open>min 60 (2^a)\<close> seconds for the attempt number \<open>a\<close> of
  the dial made before it, and no two sleeps share a dial: \<open>dialled\<close> is the attempt
  number of the dial made since the last sleep, if there is one.
\<close>

fun sleeps_follow_dials :: "64 word option \<Rightarrow> 'h action list \<Rightarrow> bool" where
  "sleeps_follow_dials dialled [] = True"
| "sleeps_follow_dials dialled (Connect a # acts) = sleeps_follow_dials (Some a) acts"
| "sleeps_follow_dials dialled (Sleep d se # acts) =
     ((case dialled of None \<Rightarrow> False | Some a \<Rightarrow> d = min 60 (2 ^ unat a))
      \<and> sleeps_follow_dials None acts)"
| "sleeps_follow_dials dialled (a # acts) = sleeps_follow_dials dialled acts"

lemma reconnect_loop_retried_append:
  "list_all retried pre \<Longrightarrow> attempt = of_nat a \<Longrightarrow>
   reconnect_loop attempt False (pre @ rest)
     = reconnect_loop attempt False pre @ reconnect_loop (of_nat (a + length pre)) False rest"
proof (induction pre arbitrary: a attempt)
  case Nil
  then show ?case by simp
next
  case (Cons r pre)
  from Cons.prems(1) have "retried r" and pre: "list_all retried pre"
    by simp_all
  then have r: "failure_end r = Some TimerFired"
    by (simp add: retried_def)
  have next_attempt: "attempt + 1 = of_nat (Suc a)"
    using Cons.prems(2) by simp
  have IH: "reconnect_loop (attempt + 1) False (pre @ rest)
     = reconnect_loop (attempt + 1) False pre @ reconnect_loop (of_nat (Suc a + length pre)) False rest"
    using pre next_attempt by (rule Cons.IH)
  from r IH show ?case
    by (cases r rule: failure_end.cases) simp_all
qed

lemma reconnect_loop_after_sleep:
  "reconnect_loop w (se = SleepCtxDone) post
     = (if se = SleepCtxDone then [Return] else reconnect_loop w False post)"
  by (cases se) simp_all

lemma reconnect_loop_failure_step:
  assumes "failure_end r = Some se"
  shows "\<exists>mid. reconnect_loop attempt False (r # post)
           = Connect (attempt + 1) # mid @ Sleep (backoff_seconds (attempt + 1)) se
               # reconnect_loop (attempt + 1) (se = SleepCtxDone) post
         \<and> attempts mid = [] \<and> waits mid = []"
proof (cases r rule: failure_end.cases)
  case (2 se')
  with assms show ?thesis
    by (intro exI [of _ "[]"]) (simp add: sleepWithBackoff_def)
next
  case (3 se')
  with assms show ?thesis
    by (intro exI [of _ "[Subscribe, CloseClient]"]) (simp add: sleepWithBackoff_def)
next
  case (4 hs se')
  with assms show ?thesis
    by (intro exI [of _ "Subscribe # print_headers hs @ [CloseClient]"])
       (simp add: sleepWithBackoff_def)
qed (use assms in simp_all)

lemma reconnect_loop_failure:
  assumes "attempt = of_nat a" and "Suc a < 2 ^ 63" and "failure_end r = Some se"
  shows "\<exists>mid. reconnect_loop attempt False (r # post)
           = Connect (of_nat (Suc a)) # mid @ Sleep (min 60 (2 ^ Suc a)) se
               # (if se = SleepCtxDone then [Return]
                  else reconnect_loop (of_nat (Suc a)) False post)
         \<and> attempts mid = [] \<and> waits mid = []"
proof -
  have next_attempt: "attempt + 1 = of_nat (Suc a)"
    using assms(1) by simp
  have b: "backoff_seconds (of_nat (Suc a)) = min 60 (2 ^ Suc a)"
    using assms(2) by (rule backoff_seconds_of_nat)
  from reconnect_loop_failure_step [OF assms(3), of attempt post]
  show ?thesis
    unfolding next_attempt b reconnect_loop_after_sleep .
qed

lemma unat_attempt: "a < 2 ^ 63 \<Longrightarrow> unat (of_nat a :: 64 word) = a"
  by (simp add: unat_of_nat)

lemma sleeps_follow_dials_print_headers [simp]:
  "sleeps_follow_dials dialled (print_headers hs @ acts) = sleeps_follow_dials dialled acts"
  by (induction hs rule: print_headers.induct) simp_all

lemma sleeps_follow_dials_round:
  assumes att: "attempt = of_nat a" and bound: "a + length (r # rs) < 2 ^ 63"
    and IH: "\<And>a' dialled. attempt + 1 = of_nat a' \<Longrightarrow> a' + length rs < 2 ^ 63 \<Longrightarrow>
               sleeps_follow_dials dialled rest"
  shows "sleeps_follow_dials (Some (attempt + 1)) (sleepWithBackoff (attempt + 1) se # rest)"
proof -
  have next_attempt: "attempt + 1 = of_nat (Suc a)"
    using att by simp
  have small: "Suc a < 2 ^ 63" "Suc a + length rs < 2 ^ 63"
    using bound by simp_all
  have b: "backoff_seconds (attempt + 1) = min 60 (2 ^ Suc a)"
    unfolding next_attempt using small(1) by (rule backoff_seconds_of_nat)
  have u: "unat (attempt + 1) = Suc a"
    unfolding next_attempt using small(1) by (rule unat_attempt)
  have "sleeps_follow_dials None rest"
    using next_attempt small(2) by (rule IH)
  with b u show ?thesis
    by (simp add: sleepWithBackoff_def)
qed

lemma reconnect_loop_sleeps_follow_dials:
  "attempt = of_nat a \<Longrightarrow> a + length rs < 2 ^ 63 \<Longrightarrow>
   sleeps_follow_dials dialled (reconnect_loop attempt c rs)"
proof (induction attempt c rs arbitrary: a dialled rule: reconnect_loop.induct)
  case (4 attempt se rs)
  have "sleeps_follow_dials (Some (attempt + 1))
          (sleepWithBackoff (attempt + 1) se # reconnect_loop (attempt + 1) (se = SleepCtxDone) rs)"
    using "4.prems" by (rule sleeps_follow_dials_round) (rule "4.IH")
  then show ?case by simp
next
  case (5 attempt se rs)
  have "sleeps_follow_dials (Some (attempt + 1))
          (sleepWithBackoff (attempt + 1) se # reconnect_loop (attempt + 1) (se = SleepCtxDone) rs)"
    using "5.prems" by (rule sleeps_follow_dials_round) (rule "5.IH")
  then show ?case by simp
next
  case (6 attempt hs se rs)
  have "sleeps_follow_dials (Some (attempt + 1))
          (sleepWithBackoff (attempt + 1) se # reconnect_loop (attempt + 1) (se = SleepCtxDone) rs)"
    using "6.prems" by (rule sleeps_follow_dials_round) (rule "6.IH")
  then show ?case by simp
qed simp_all

lemma dial_failures_run:
  "a + n < 2 ^ 63 \<Longrightarrow>
   reconnect_loop (of_nat a) False (replicate n (DialFailed TimerFired) :: 'h round list)
     = concat (map (\<lambda>j. [Connect (of_nat j), Sleep (min 60 (2 ^ j)) TimerFired])
                   [Suc a..<Suc a + n])"
proof (induction n arbitrary: a)
  case 0
  show ?case by simp
next
  case (Suc n)
  have next_attempt: "(of_nat a :: 64 word) + 1 = of_nat (Suc a)"
    by simp
  have b: "backoff_seconds (of_nat (Suc a)) = min 60 (2 ^ Suc a)"
    using Suc.prems by (intro backoff_seconds_of_nat) simp
  have rest: "reconnect_loop (of_nat (Suc a)) False (replicate n (DialFailed TimerFired) :: 'h round list)
     = concat (map (\<lambda>j. [Connect (of_nat j), Sleep (min 60 (2 ^ j)) TimerFired])
                   [Suc (Suc a)..<Suc (Suc a) + n])"
  proof (rule Suc.IH)
    show "Suc a + n < 2 ^ 63" using Suc.prems by simp
  qed
  have upt: "[Suc a..<Suc a + Suc n] = Suc a # [Suc (Suc a)..<Suc (Suc a) + n]"
    by (simp add: upt_conv_Cons del: upt_Suc)
  have "reconnect_loop (of_nat a) False (replicate (Suc n) (DialFailed TimerFired) :: 'h round list)
     = Connect (of_nat (Suc a)) # Sleep (backoff_seconds (of_nat (Suc a))) TimerFired
         # reconnect_loop (of_nat (Suc a)) False (replicate n (DialFailed TimerFired) :: 'h round list)"
    unfolding next_attempt [symmetric] by (simp add: sleepWithBackoff_def)
  then show ?case
    unfolding upt b rest by simp
qed


lemma retried_rounds_counts:
  "list_all retried qs \<Longrightarrow>
   length (waits (reconnect_loop attempt False qs)) = length qs
   \<and> length (attempts (reconnect_loop attempt False qs)) = length qs"
proof (induction qs arbitrary: attempt)
  case Nil
  show ?case by simp
next
  case (Cons r qs)
  from Cons.prems have "retried r" and qs: "list_all retried qs"
    by simp_all
  then have r: "failure_end r = Some TimerFired"
    by (simp add: retried_def)
  from r Cons.IH [OF qs, of "attempt + 1"] show ?case
    by (cases r rule: failure_end.cases) (simp_all add: sleepWithBackoff_def)
qed

text \<open>
  Claim C7. For every behaviour of the environment (shorter than \<open>2^63\<close> rounds, so
  that the 64-bit counter does not wrap): the dials carry the attempt numbers 1, 2,
  3, ... without a reset, whether earlier rounds connected or not; the \<open>j\<close>-th sleep
  lasts \<open>min 60 (2^j)\<close> seconds, so the delays never decrease and never exceed 60; and
  after a sleep that was ended by the cancellation the loop does nothing but return:
  no further dial. Every sleep follows a dial of its own and lasts \<open>min 60 (2^a)\<close>
  for that dial's attempt number \<open>a\<close>. Every failure is followed by its sleep: when
  the rounds before round \<open>r\<close> were all retried and \<open>r\<close> fails, the run continues
  the run of these rounds with the dial number \<open>length pre + 1\<close>, no other dial or
  sleep, then the sleep of \<open>min 60 (2^(length pre + 1))\<close> seconds, and then either
  returns (the sleep was cancelled) or goes on from that attempt number. So \<open>n\<close>
  retried failures of any kind give the attempt numbers \<open>1..n\<close> and the delays
  \<open>min 60 (2^1), ..., min 60 (2^n)\<close>, and \<open>n\<close> failed dials give exactly the calls
  dial \<open>j\<close>, sleep \<open>min 60 (2^j)\<close> for \<open>j = 1..n\<close>.
\<close>

theorem backoff_grows_to_cap_and_cancel_stops:
  assumes "length rs < 2 ^ 63"
  shows "attempts (runWithReconnect rs)
           = map of_nat [1..<1 + length (attempts (runWithReconnect rs))]
       \<and> waits (runWithReconnect rs)
           = map (\<lambda>j. min 60 (2 ^ j)) [1..<1 + length (waits (runWithReconnect rs))]
       \<and> sorted (waits (runWithReconnect rs))
       \<and> (\<forall>d\<in>set (waits (runWithReconnect rs)). d \<le> 60)
       \<and> (\<forall>i d. i < length (runWithReconnect rs) \<longrightarrow>
                  runWithReconnect rs ! i = Sleep d SleepCtxDone \<longrightarrow>
                  drop (Suc i) (runWithReconnect rs) = [Return])
       \<and> sleeps_follow_dials None (runWithReconnect rs)
       \<and> (rs = pre @ r # post \<and> list_all retried pre \<and> failure_end r = Some se \<longrightarrow>
            (\<exists>mid. runWithReconnect rs
                      = runWithReconnect pre
                        @ Connect (of_nat (Suc (length pre))) # mid
                        @ Sleep (min 60 (2 ^ Suc (length pre))) se
                        # (if se = SleepCtxDone then [Return]
                           else reconnect_loop (of_nat (Suc (length pre))) False post)
                  \<and> attempts mid = [] \<and> waits mid = []))
       \<and> (length qs < 2 ^ 63 \<and> list_all retried qs \<longrightarrow>
            attempts (runWithReconnect qs) = map of_nat [1..<1 + length qs]
          \<and> waits (runWithReconnect qs) = map (\<lambda>j. min 60 (2 ^ j)) [1..<1 + length qs])
       \<and> (n < 2 ^ 63 \<longrightarrow>
            runWithReconnect (replicate n (DialFailed TimerFired) :: 'h round list)
              = concat (map (\<lambda>j. [Connect (of_nat j), Sleep (min 60 (2 ^ j)) TimerFired])
                            [1..<1 + n]))"
proof -
  let ?acts = "runWithReconnect rs"
  have w: "waits ?acts = backoff_schedule (Suc 0) (length (waits ?acts))"
    unfolding runWithReconnect_def
    by (rule reconnect_loop_waits [where a = 0]) (use assms in simp_all)
  have a: "attempts ?acts = attempt_numbers (Suc 0) (length (attempts ?acts))"
    unfolding runWithReconnect_def
    by (rule reconnect_loop_attempts [where a = 0]) simp
  have s: "sorted (waits ?acts)"
    by (subst w) (rule sorted_backoff_schedule)
  have le: "\<forall>d\<in>set (waits ?acts). d \<le> 60"
    by (subst w) (auto dest: backoff_schedule_le)
  have "stops_after_cancelled_wait ?acts"
    unfolding runWithReconnect_def by (rule reconnect_loop_stops)
  then have c: "\<forall>i d. i < length ?acts \<longrightarrow> ?acts ! i = Sleep d SleepCtxDone \<longrightarrow>
                  drop (Suc i) ?acts = [Return]"
    unfolding stops_after_cancelled_wait_def .
  from a have a': "attempts ?acts = map of_nat [1..<1 + length (attempts ?acts)]"
    by (simp only: attempt_numbers_def One_nat_def)
  from w have w': "waits ?acts = map (\<lambda>j. min 60 (2 ^ j)) [1..<1 + length (waits ?acts)]"
    by (simp only: backoff_schedule_def One_nat_def)
  have f: "sleeps_follow_dials None ?acts"
    unfolding runWithReconnect_def
    by (rule reconnect_loop_sleeps_follow_dials [where a = 0]) (use assms in simp_all)
  have b: "rs = pre @ r # post \<and> list_all retried pre \<and> failure_end r = Some se \<longrightarrow>
            (\<exists>mid. runWithReconnect rs
                      = runWithReconnect pre
                        @ Connect (of_nat (Suc (length pre))) # mid
                        @ Sleep (min 60 (2 ^ Suc (length pre))) se
                        # (if se = SleepCtxDone then [Return]
                           else reconnect_loop (of_nat (Suc (length pre))) False post)
                  \<and> attempts mid = [] \<and> waits mid = [])"
  proof (intro impI, elim conjE)
    assume rs: "rs = pre @ r # post" and pre: "list_all retried pre"
      and r: "failure_end r = Some se"
    have split: "reconnect_loop 0 False (pre @ r # post)
        = reconnect_loop 0 False pre @ reconnect_loop (of_nat (0 + length pre)) False (r # post)"
      using pre by (rule reconnect_loop_retried_append) simp
    have small: "Suc (length pre) < 2 ^ 63"
      using assms rs by simp
    obtain mid where step: "reconnect_loop (of_nat (length pre)) False (r # post)
           = Connect (of_nat (Suc (length pre))) # mid @ Sleep (min 60 (2 ^ Suc (length pre))) se
               # (if se = SleepCtxDone then [Return]
                  else reconnect_loop (of_nat (Suc (length pre))) False post)"
      and mid: "attempts mid = []" "waits mid = []"
      using reconnect_loop_failure [OF refl small r, of post] by blast
    have "runWithReconnect rs
        = runWithReconnect pre
          @ Connect (of_nat (Suc (length pre))) # mid
          @ Sleep (min 60 (2 ^ Suc (length pre))) se
          # (if se = SleepCtxDone then [Return]
             else reconnect_loop (of_nat (Suc (length pre))) False post)"
      unfolding runWithReconnect_def rs split add_0 step ..
    with mid show "\<exists>mid. runWithReconnect rs
                      = runWithReconnect pre
                        @ Connect (of_nat (Suc (length pre))) # mid
                        @ Sleep (min 60 (2 ^ Suc (length pre))) se
                        # (if se = SleepCtxDone then [Return]
                           else reconnect_loop (of_nat (Suc (length pre))) False post)
                  \<and> attempts mid = [] \<and> waits mid = []"
      by blast
  qed
  have q: "length qs < 2 ^ 63 \<and> list_all retried qs \<longrightarrow>
            attempts (runWithReconnect qs) = map of_nat [1..<1 + length qs]
          \<and> waits (runWithReconnect qs) = map (\<lambda>j. min 60 (2 ^ j)) [1..<1 + length qs]"
  proof (intro impI, elim conjE)
    assume len: "length qs < 2 ^ 63" and all: "list_all retried qs"
    have n: "length (waits (runWithReconnect qs)) = length qs"
         "length (attempts (runWithReconnect qs)) = length qs"
      using retried_rounds_counts [OF all, of 0] by (simp_all add: runWithReconnect_def)
    have "waits (runWithReconnect qs)
        = backoff_schedule (Suc 0) (length (waits (runWithReconnect qs)))"
      unfolding runWithReconnect_def
      by (rule reconnect_loop_waits [where a = 0]) (use len in simp_all)
    then have qw: "waits (runWithReconnect qs) = map (\<lambda>j. min 60 (2 ^ j)) [1..<1 + length qs]"
      unfolding n by (simp only: backoff_schedule_def One_nat_def)
    have "attempts (runWithReconnect qs)
        = attempt_numbers (Suc 0) (length (attempts (runWithReconnect qs)))"
      unfolding runWithReconnect_def
      by (rule reconnect_loop_attempts [where a = 0]) simp
    then have qa: "attempts (runWithReconnect qs) = map of_nat [1..<1 + length qs]"
      unfolding n by (simp only: attempt_numbers_def One_nat_def)
    from qa qw show "attempts (runWithReconnect qs) = map of_nat [1..<1 + length qs]
          \<and> waits (runWithReconnect qs) = map (\<lambda>j. min 60 (2 ^ j)) [1..<1 + length qs]"
      by (rule conjI)
  qed
  have d: "n < 2 ^ 63 \<longrightarrow>
            runWithReconnect (replicate n (DialFailed TimerFired) :: 'h round list)
              = concat (map (\<lambda>j. [Connect (of_nat j), Sleep (min 60 (2 ^ j)) TimerFired])
                            [1..<1 + n])"
  proof
    assume "n < 2 ^ 63"
    then have "0 + n < 2 ^ 63" by simp
    then have "reconnect_loop (of_nat 0) False (replicate n (DialFailed TimerFired) :: 'h round list)
       = concat (map (\<lambda>j. [Connect (of_nat j), Sleep (min 60 (2 ^ j)) TimerFired])
                     [Suc 0..<Suc 0 + n])"
      by (rule dial_failures_run)
    then show "runWithReconnect (replicate n (DialFailed TimerFired) :: 'h round list)
              = concat (map (\<lambda>j. [Connect (of_nat j), Sleep (min 60 (2 ^ j)) TimerFired])
                            [1..<1 + n])"
      unfolding runWithReconnect_def One_nat_def semiring_1_class.of_nat_0 .
  qed
  show ?thesis
    by (intro conjI) (fact a' w' s le c f b q d)+
qed


text \<open>
  A dial failure, a subscription that breaks, a failed subscription whose backoff
  sleep is cancelled, and a round that is never reached; and three failures that are
  all retried.
\<close>

definition sample_rounds :: "nat round list" where
  "sample_rounds =
     [DialFailed TimerFired, Streamed [Some 7, None] (SubErr TimerFired),
      SubscribeFailed SleepCtxDone, DialFailed TimerFired]"

definition sample_retries :: "nat round list" where
  "sample_retries =
     [DialFailed TimerFired, Streamed [Some 7, None] (SubErr TimerFired),
      SubscribeFailed TimerFired]"

theorem backoff_grows_to_cap_and_cancel_stops_witness:
  "length sample_rounds < 2 ^ 63
   \<and> runWithReconnect sample_rounds
       = [Connect 1, Sleep 2 TimerFired,
          Connect 2, Subscribe, PrintBlock 7, CloseClient, Sleep 4 TimerFired,
          Connect 3, Subscribe, CloseClient, Sleep 8 SleepCtxDone, Return]
   \<and> waits (runWithReconnect sample_rounds) = [2, 4, 8]
   \<and> sorted (waits (runWithReconnect sample_rounds))
   \<and> drop 11 (runWithReconnect sample_rounds) = [Return]
   \<and> sleeps_follow_dials None (runWithReconnect sample_rounds)
   \<and> sample_rounds = take 2 sample_rounds @ SubscribeFailed SleepCtxDone # [DialFailed TimerFired]
   \<and> list_all retried (take 2 sample_rounds)
   \<and> failure_end (SubscribeFailed SleepCtxDone :: nat round) = Some SleepCtxDone
   \<and> runWithReconnect sample_rounds
       = runWithReconnect (take 2 sample_rounds)
         @ Connect 3 # [Subscribe, CloseClient] @ Sleep 8 SleepCtxDone # [Return]
   \<and> length sample_retries < 2 ^ 63
   \<and> list_all retried sample_retries
   \<and> attempts (runWithReconnect sample_retries) = [1, 2, 3]
   \<and> waits (runWithReconnect sample_retries) = [2, 4, 8]
   \<and> (3 :: nat) < 2 ^ 63
   \<and> runWithReconnect (replicate 3 (DialFailed TimerFired) :: nat round list)
       = [Connect 1, Sleep 2 TimerFired, Connect 2, Sleep 4 TimerFired,
          Connect 3, Sleep 8 TimerFired]"
proof -
  have h: "length sample_rounds < 2 ^ 63"
    by (simp add: sample_rounds_def)
  have r: "runWithReconnect sample_rounds
       = [Connect 1, Sleep 2 TimerFired,
          Connect 2, Subscribe, PrintBlock 7, CloseClient, Sleep 4 TimerFired,
          Connect 3, Subscribe, CloseClient, Sleep 8 SleepCtxDone, Return]"
    by (simp add: runWithReconnect_def sample_rounds_def sleepWithBackoff_def backoff_seconds_def)
  have p: "runWithReconnect (take 2 sample_rounds)
       = [Connect 1, Sleep 2 TimerFired,
          Connect 2, Subscribe, PrintBlock 7, CloseClient, Sleep 4 TimerFired]"
    by (simp add: runWithReconnect_def sample_rounds_def sleepWithBackoff_def backoff_seconds_def)
  have split: "sample_rounds
       = take 2 sample_rounds @ SubscribeFailed SleepCtxDone # [DialFailed TimerFired]"
    by (simp add: sample_rounds_def)
  have pre: "list_all retried (take 2 sample_rounds)"
    by (simp add: sample_rounds_def retried_def)
  have fe: "failure_end (SubscribeFailed SleepCtxDone :: nat round) = Some SleepCtxDone"
    by simp
  have q: "length sample_retries < 2 ^ 63" "list_all retried sample_retries"
    by (simp_all add: sample_retries_def retried_def)
  have three: "(3 :: nat) < 2 ^ 63"
    by simp
  have len: "length sample_retries = 3"
    by (simp add: sample_retries_def)
  have upt: "[1..<1 + (3::nat)] = [1, 2, 3]"
    by (simp add: upt_rec)
  note schedule = backoff_grows_to_cap_and_cancel_stops
      [OF h, where pre = "take 2 sample_rounds" and r = "SubscribeFailed SleepCtxDone"
         and post = "[DialFailed TimerFired]" and se = SleepCtxDone
         and qs = sample_retries and n = 3]
  from schedule have f: "sleeps_follow_dials None (runWithReconnect sample_rounds)"
    by blast
  from schedule q have "attempts (runWithReconnect sample_retries)
        = map of_nat [1..<1 + length sample_retries]
      \<and> waits (runWithReconnect sample_retries)
        = map (\<lambda>j. min 60 (2 ^ j)) [1..<1 + length sample_retries]"
    by blast
  then have qr: "attempts (runWithReconnect sample_retries) = [1, 2, 3]"
      "waits (runWithReconnect sample_retries) = [2, 4, 8]"
    unfolding len upt by simp_all
  from schedule three
  have "runWithReconnect (replicate 3 (DialFailed TimerFired) :: nat round list)
      = concat (map (\<lambda>j. [Connect (of_nat j), Sleep (min 60 (2 ^ j)) TimerFired]) [1..<1 + 3])"
    by blast
  then have d: "runWithReconnect (replicate 3 (DialFailed TimerFired) :: nat round list)
       = [Connect 1, Sleep 2 TimerFired, Connect 2, Sleep 4 TimerFired,
          Connect 3, Sleep 8 TimerFired]"
    unfolding upt by simp
  show ?thesis
    using h r p split pre fe q three f qr d by simp
qed


section \<open>Raw logs and the ABI library\<close>

text \<open>
  Modelled from the spec: the byte-level helpers of go-ethereum and \<^verbatim>\<open>math/big\<close> that
  the repository calls are not among its files. The spec gives their meaning:
  an integer is the big-endian reading of its bytes, and an address is the lower 20
  bytes of a 32-byte word.

  \<^verbatim>\<open>new(big.Int).SetBytes(b)\<close>: the big-endian unsigned value of a byte string.
\<close>

fun be_to_nat_acc :: "nat \<Rightarrow> byte list \<Rightarrow> nat" where
  "be_to_nat_acc acc [] = acc"
| "be_to_nat_acc acc (b # bs) = be_to_nat_acc (acc * 256 + unat b) bs"

definition be_to_nat :: "byte list \<Rightarrow> nat" where
  "be_to_nat bs = be_to_nat_acc 0 bs"

text \<open>The \<open>n\<close> low-order bytes of a number, most significant first.\<close>

fun nat_to_be :: "nat \<Rightarrow> nat \<Rightarrow> byte list" where
  "nat_to_be 0 v = []"
| "nat_to_be (Suc n) v = nat_to_be n (v div 256) @ [of_nat (v mod 256)]"

text \<open>
  Modelled from the spec: \<^verbatim>\<open>Bytes()\<close> of a hash and of an address (go-ethereum's
  \<^verbatim>\<open>common\<close> package) returns the 32, or 20, bytes of the array.
\<close>

definition Hash_Bytes :: "Hash \<Rightarrow> byte list" where
  "Hash_Bytes h = nat_to_be 32 (unat h)"

definition Address_Bytes :: "Address \<Rightarrow> byte list" where
  "Address_Bytes a = nat_to_be 20 (unat a)"

text \<open>
  Modelled from the spec: \<^verbatim>\<open>common.BytesToAddress\<close> keeps the last 20 bytes of a longer
  byte string (it crops from the left) and right-aligns a shorter one.
\<close>

definition BytesToAddress :: "byte list \<Rightarrow> Address" where
  "BytesToAddress b =
     of_nat (be_to_nat (if length b > 20 then drop (length b - 20) b else b))"

subsection \<open>Bytes and words\<close>

lemma length_nat_to_be [simp]: "length (nat_to_be n v) = n"
  by (induction n arbitrary: v) simp_all

lemma be_to_nat_acc_append:
  "be_to_nat_acc acc (xs @ ys) = be_to_nat_acc (be_to_nat_acc acc xs) ys"
  by (induction xs arbitrary: acc) simp_all

lemma be_to_nat_snoc: "be_to_nat (bs @ [b]) = be_to_nat bs * 256 + unat b"
  by (simp add: be_to_nat_def be_to_nat_acc_append)

lemma be_to_nat_nat_to_be: "be_to_nat (nat_to_be n v) = v mod 256 ^ n"
proof (induction n arbitrary: v)
  case 0
  show ?case by (simp add: be_to_nat_def)
next
  case (Suc n)
  have "unat (of_nat (v mod 256) :: byte) = v mod 256"
    by (simp add: unat_of_nat)
  then have "be_to_nat (nat_to_be (Suc n) v) = (v div 256) mod 256 ^ n * 256 + v mod 256"
    by (simp add: be_to_nat_snoc Suc)
  also have "\<dots> = v mod 256 ^ Suc n"
    by (simp add: mod_mult2_eq mult.commute)
  finally show ?case .
qed

lemma drop_nat_to_be: "k \<le> n \<Longrightarrow> drop k (nat_to_be n v) = nat_to_be (n - k) v"
proof (induction n arbitrary: v)
  case 0
  then show ?case by simp
next
  case (Suc n)
  show ?case
  proof (cases "k = Suc n")
    case True
    then show ?thesis by simp
  next
    case False
    with Suc.prems have "k \<le> n" by simp
    then show ?thesis
      by (simp add: Suc.IH Suc_diff_le)
  qed
qed

lemma BytesToAddress_Hash_Bytes: "BytesToAddress (Hash_Bytes h) = ucast h"
proof -
  have "BytesToAddress (Hash_Bytes h) = of_nat (unat h mod 256 ^ 20)"
    by (simp add: BytesToAddress_def Hash_Bytes_def drop_nat_to_be be_to_nat_nat_to_be)
  also have "\<dots> = (ucast h :: Address)"
    by (simp add: word_eq_iff_unsigned [where ?'a = nat] unsigned_of_nat unsigned_ucast_eq take_bit_eq_mod)
  finally show ?thesis .
qed

lemma be_to_nat_Hash_Bytes: "be_to_nat (Hash_Bytes h) = unat h"
proof -
  have "unat h < 2 ^ 256"
    using unsigned_less [of h] by simp
  then show ?thesis
    by (simp add: Hash_Bytes_def be_to_nat_nat_to_be)
qed


text \<open>
  \<^verbatim>\<open>types.Log\<close>, with the fields the repository reads. The block number and the
  transaction hash are prefixed, since \<open>TransferEvent\<close> has fields of these names.
\<close>

record Log =
  Address :: Address
  Topics :: "Hash list"
  Data :: "byte list"
  Log_BlockNumber :: "64 word"
  Log_TxHash :: Hash
  Index :: nat

text \<open>
  The type tags \<^verbatim>\<open>abi.Type.T\<close>, an argument and an event of a parsed ABI.
  \<^verbatim>\<open>parsedABI.Events\<close> is a Go map; it is given as the list of its entries in the
  order in which the \<^verbatim>\<open>range\<close> loop visits them.
\<close>

datatype abi_ty =
  IntTy | UintTy | BoolTy | StringTy | SliceTy | ArrayTy | TupleTy | AddressTy
  | FixedBytesTy | BytesTy | HashTy | FixedPointTy | FunctionTy

record Argument =
  Name :: string
  Type :: abi_ty
  Indexed :: bool

record Event =
  Sig :: string
  Inputs :: "Argument list"

subsection \<open>\<^verbatim>\<open>parseLogEvent\<close>\<close>

text \<open>
  \<^verbatim>\<open>parseLogEvent\<close> prints what it decodes and returns nothing. The model returns the
  decoded items in print order. What the \<^verbatim>\<open>switch\<close> over the type tag prints for an
  indexed parameter:
\<close>

datatype printed = PAddress Address | PInteger nat | PBool bool | PHex Hash | PRawHex Hash

definition print_topic :: "abi_ty \<Rightarrow> Hash \<Rightarrow> printed" where
  "print_topic t topic =
     (if t = AddressTy then PAddress (BytesToAddress (Hash_Bytes topic))
      else if t = IntTy \<or> t = UintTy then PInteger (be_to_nat (Hash_Bytes topic))
      else if t = BoolTy then PBool (Hash_Bytes topic ! 31 \<noteq> 0)
      else if t = BytesTy \<or> t = FixedBytesTy then PHex topic
      else PRawHex topic)"

text \<open>
  The loop over \<^verbatim>\<open>eventSig.Inputs\<close> for the indexed parameters, from position \<open>i\<close>
  on, with the counter \<^verbatim>\<open>indexedParamIndex\<close>. An entry is the printed position
  \<open>i + 1\<close>, the parameter's name and its value.
\<close>

fun indexed_loop :: "Hash list \<Rightarrow> Argument list \<Rightarrow> nat \<Rightarrow> nat \<Rightarrow> (nat \<times> string \<times> printed) list" where
  "indexed_loop topics [] i indexedParamIndex = []"
| "indexed_loop topics (input # rest) i indexedParamIndex =
     (if \<not> Indexed input then indexed_loop topics rest (i + 1) indexedParamIndex
      else if 1 + indexedParamIndex \<ge> length topics
        then indexed_loop topics rest (i + 1) (indexedParamIndex + 1)
      else (i + 1, Name input, print_topic (Type input) (topics ! (1 + indexedParamIndex)))
             # indexed_loop topics rest (i + 1) (indexedParamIndex + 1))"

text \<open>The loop that prints the unpacked values, with the counter \<^verbatim>\<open>nonIndexedIdx\<close>.\<close>

fun nonindexed_loop :: "'v list \<Rightarrow> Argument list \<Rightarrow> nat \<Rightarrow> nat \<Rightarrow> (nat \<times> string \<times> 'v) list" where
  "nonindexed_loop values [] i nonIndexedIdx = []"
| "nonindexed_loop values (input # rest) i nonIndexedIdx =
     (if \<not> Indexed input \<and> nonIndexedIdx < length values
        then (i + 1, Name input, values ! nonIndexedIdx)
               # nonindexed_loop values rest (i + 1) (nonIndexedIdx + 1)
      else nonindexed_loop values rest (i + 1) nonIndexedIdx)"

text \<open>
  The outcome for the payload: \<^verbatim>\<open>Data\<close> is empty; it is not empty and the event has
  no non-indexed input; \<^verbatim>\<open>parsedABI.Unpack\<close> failed (the error is printed and the
  function goes on); or the values were unpacked and printed.
\<close>

datatype ('e, 'v) data_report =
    NoData
  | NoNonIndexedInputs
  | DecodeFailed 'e
  | Decoded "(nat \<times> string \<times> 'v) list"

datatype ('e, 'v) report =
    NoTopics
  | UnknownEvent "64 word" Hash Hash
  | EventReport string "(nat \<times> string \<times> printed) list" "('e, 'v) data_report"

text \<open>
  Step 4 of \<^verbatim>\<open>parseLogEvent\<close>: \<open>unpack\<close> stands for \<^verbatim>\<open>parsedABI.Unpack\<close>, a function
  of the ABI library from the event name and the payload to an error or the values.
\<close>

definition parse_data ::
  "(string \<Rightarrow> byte list \<Rightarrow> 'e + 'v list) \<Rightarrow> Log \<Rightarrow> string \<Rightarrow> Event \<Rightarrow> ('e, 'v) data_report" where
  "parse_data unpack vLog eventName eventSig =
     (if length (Data vLog) > 0 then
        (if length (filter (\<lambda>input. \<not> Indexed input) (Inputs eventSig)) > 0 then
           (case unpack eventName (Data vLog) of
              Inl err \<Rightarrow> DecodeFailed err
            | Inr values \<Rightarrow> Decoded (nonindexed_loop values (Inputs eventSig) 0 0))
         else NoNonIndexedInputs)
      else NoData)"

text \<open>
  \<^verbatim>\<open>parseLogEvent\<close>. \<open>Keccak256Hash\<close> stands for \<^verbatim>\<open>crypto.Keccak256Hash\<close>. The
  search loop stops at the first event whose signature hash equals \<^verbatim>\<open>Topics[0]\<close>; an
  empty \<^verbatim>\<open>eventName\<close> afterwards means that the event is unknown. No index expression
  of the function can be out of range: each is guarded by the length test before it,
  and a topic is an array of 32 bytes.
\<close>

definition parseLogEvent ::
  "(string \<Rightarrow> Hash) \<Rightarrow> (string \<Rightarrow> byte list \<Rightarrow> 'e + 'v list) \<Rightarrow> Log \<Rightarrow> (string \<times> Event) list
     \<Rightarrow> ('e, 'v) report" where
  "parseLogEvent Keccak256Hash unpack vLog abi_events =
     (if length (Topics vLog) = 0 then NoTopics
      else
        (case find (\<lambda>(name, event). Keccak256Hash (Sig event) = Topics vLog ! 0) abi_events of
           None \<Rightarrow> UnknownEvent (Log_BlockNumber vLog) (Log_TxHash vLog) (Topics vLog ! 0)
         | Some (eventName, eventSig) \<Rightarrow>
             if eventName = [] then
               UnknownEvent (Log_BlockNumber vLog) (Log_TxHash vLog) (Topics vLog ! 0)
             else EventReport eventName
                    (indexed_loop (Topics vLog) (Inputs eventSig) 0 0)
                    (parse_data unpack vLog eventName eventSig)))"

text \<open>The two events of \<^verbatim>\<open>erc20ABIJSON\<close> in \<^verbatim>\<open>06-subscribe-logs\<close>.\<close>

definition erc20_events :: "(string \<times> Event) list" where
  "erc20_events =
     [(''Transfer'',
       \<lparr>Sig = ''Transfer(address,address,uint256)'',
        Inputs = [\<lparr>Name = ''from'', Type = AddressTy, Indexed = True\<rparr>,
                  \<lparr>Name = ''to'', Type = AddressTy, Indexed = True\<rparr>,
                  \<lparr>Name = ''value'', Type = UintTy, Indexed = False\<rparr>]\<rparr>),
      (''Approval'',
       \<lparr>Sig = ''Approval(address,address,uint256)'',
        Inputs = [\<lparr>Name = ''owner'', Type = AddressTy, Indexed = True\<rparr>,
                  \<lparr>Name = ''spender'', Type = AddressTy, Indexed = True\<rparr>,
                  \<lparr>Name = ''value'', Type = UintTy, Indexed = False\<rparr>]\<rparr>)]"

text \<open>The decimal digits of a number (\<^verbatim>\<open>%d\<close>).\<close>

fun decimal :: "nat \<Rightarrow> string" where
  "decimal n =
     (if n < 10 then [char_of (48 + n)] else decimal (n div 10) @ [char_of (48 + n mod 10)])"

declare decimal.simps [simp del]

text \<open>
  Modelled from the spec: the ABI unpacker of go-ethereum is not among the
  repository's files. For an event whose only non-indexed parameter is a
  \<^verbatim>\<open>uint256\<close>, unpacking reads the first 32-byte word of the payload as a big-endian
  integer; an empty payload and a payload shorter than one word are errors (the
  spec's "truncated word"), reported with the texts of go-ethereum's
  \<^verbatim>\<open>accounts/abi\<close> (some releases spell the first one "unmarshall").
\<close>

definition Unpack_uint256 :: "byte list \<Rightarrow> string + nat" where
  "Unpack_uint256 data =
     (if length data = 0 then
        Inl ''abi: attempting to unmarshal an empty string while arguments are expected''
      else if length data < 32 then
        Inl (''abi: cannot marshal in to go type: length insufficient '' @ decimal (length data)
             @ '' require 32'')
      else Inr (be_to_nat (take 32 data)))"

text \<open>\<^verbatim>\<open>parsedABI.Unpack(name, data)\<close> for the two ERC-20 events: a list of one value.\<close>

definition Unpack_erc20 :: "string \<Rightarrow> byte list \<Rightarrow> string + nat list" where
  "Unpack_erc20 name data =
     (case Unpack_uint256 data of Inl err \<Rightarrow> Inl err | Inr v \<Rightarrow> Inr [v])"

subsection \<open>The subscription that fills the event store\<close>

text \<open>
  The branch \<^verbatim>\<open>case vLog := <-logsCh\<close> of \<^verbatim>\<open>subscribeTransferEvents\<close>, for a log
  received at time \<open>now\<close>. \<open>unpack\<close> stands for
  \<^verbatim>\<open>parsedABI.UnpackIntoInterface(&event, "Transfer", vLog.Data)\<close>: it returns the
  error's text, or the value it stores in \<^verbatim>\<open>event.Value\<close> (it sets the non-indexed
  field only; \<^verbatim>\<open>event.From\<close> and \<^verbatim>\<open>event.To\<close> keep their zero value). The result is
  the store after the branch and the lines it logs.
\<close>

definition receive_log ::
  "(byte list \<Rightarrow> string + nat) \<Rightarrow> EventStore \<Rightarrow> Log \<Rightarrow> nat \<Rightarrow> panic + EventStore \<times> string list" where
  "receive_log unpack store vLog now =
     (if length (Topics vLog) = 0 then Inr (store, [])
      else
        (case unpack (Data vLog) of
           Inl err \<Rightarrow> Inr (store, [''failed to unpack log data: '' @ err])
         | Inr v \<Rightarrow>
             (case Add store
                     \<lparr>BlockNumber = Log_BlockNumber vLog,
                      TxHash = Log_TxHash vLog,
                      From = (if length (Topics vLog) \<ge> 3
                              then BytesToAddress (Hash_Bytes (Topics vLog ! 1)) else 0),
                      To = (if length (Topics vLog) \<ge> 3
                            then BytesToAddress (Hash_Bytes (Topics vLog ! 2)) else 0),
                      Value = v,
                      Timestamp = now\<rparr> of
                Inl p \<Rightarrow> Inl p
              | Inr store' \<Rightarrow> Inr (store', []))))"

text \<open>
  What the \<^verbatim>\<open>select\<close> of the loop receives: a log (with the time at which it is
  handled), an error of the subscription, or the done context.
\<close>

datatype sub_input = LogReceived Log nat | SubscriptionError string | ContextDone

datatype sub_state = Listening | Returned

text \<open>
  The \<^verbatim>\<open>for\<close> loop of \<^verbatim>\<open>subscribeTransferEvents\<close> over what it receives, with the
  lines logged so far. When the inputs run out the loop is still listening.
\<close>

fun subscription_loop ::
  "(byte list \<Rightarrow> string + nat) \<Rightarrow> EventStore \<Rightarrow> string list \<Rightarrow> sub_input list
     \<Rightarrow> panic + EventStore \<times> string list \<times> sub_state" where
  "subscription_loop unpack store logged [] = Inr (store, logged, Listening)"
| "subscription_loop unpack store logged (LogReceived vLog now # rest) =
     (case receive_log unpack store vLog now of
        Inl p \<Rightarrow> Inl p
      | Inr (store', lines) \<Rightarrow> subscription_loop unpack store' (logged @ lines) rest)"
| "subscription_loop unpack store logged (SubscriptionError err # rest) =
     Inr (store, logged @ [''subscription error: '' @ err], Returned)"
| "subscription_loop unpack store logged (ContextDone # rest) =
     Inr (store, logged @ [''context cancelled, stop subscription''], Returned)"

subsection \<open>Encoding a Transfer event\<close>

text \<open>
  Modelled from the spec: a synthetically encoded log of
  \<^verbatim>\<open>Transfer(address from, address to, uint256 value)\<close>. An indexed address is its
  topic word zero-padded on the left; the payload is the 32-byte big-endian value.
\<close>

definition address_topic :: "Address \<Rightarrow> Hash" where
  "address_topic a = ucast a"

definition encode_Transfer :: "(string \<Rightarrow> Hash) \<Rightarrow> Address \<Rightarrow> Address \<Rightarrow> Hash \<Rightarrow> Log \<Rightarrow> Log" where
  "encode_Transfer Keccak256Hash from to v l =
     l\<lparr>Topics := [Keccak256Hash ''Transfer(address,address,uint256)'',
                  address_topic from, address_topic to],
       Data := Hash_Bytes v\<rparr>"


subsection \<open>Facts about the decoders\<close>

lemma length_Hash_Bytes [simp]: "length (Hash_Bytes h) = 32"
  by (simp add: Hash_Bytes_def)

lemma BytesToAddress_address_topic [simp]:
  "BytesToAddress (Hash_Bytes (address_topic a)) = a"
proof -
  have "(ucast (ucast a :: Hash) :: Address) = a"
    by (rule ucast_up_ucast_id) (simp add: is_up)
  then show ?thesis
    by (simp add: BytesToAddress_Hash_Bytes address_topic_def)
qed

text \<open>
  The topic of an address is the address behind 12 zero bytes, and the payload of a
  value is 32 bytes that read back as the value.
\<close>

lemma nat_to_be_zero: "nat_to_be k 0 = replicate k 0"
  by (induction k) (simp_all add: replicate_append_same)

lemma nat_to_be_padding:
  "v < 256 ^ n \<Longrightarrow> nat_to_be (k + n) v = replicate k 0 @ nat_to_be n v"
proof (induction n arbitrary: v)
  case 0
  then show ?case by (simp add: nat_to_be_zero)
next
  case (Suc n)
  then have "v div 256 < 256 ^ n"
    by (simp add: less_mult_imp_div_less mult.commute)
  then have "nat_to_be (k + n) (v div 256) = replicate k 0 @ nat_to_be n (v div 256)"
    by (rule Suc.IH)
  then show ?case by simp
qed

lemma Hash_Bytes_address_topic:
  "Hash_Bytes (address_topic a) = replicate 12 0 @ Address_Bytes a"
proof -
  have small: "unat a < 256 ^ 20"
    using unsigned_less [of a] by simp
  have "unat (ucast a :: Hash) = unat a"
    using small by (simp add: unsigned_ucast_eq take_bit_eq_mod)
  then have "Hash_Bytes (address_topic a) = nat_to_be (12 + 20) (unat a)"
    by (simp add: Hash_Bytes_def address_topic_def)
  also have "\<dots> = replicate 12 0 @ nat_to_be 20 (unat a)"
    using small by (rule nat_to_be_padding)
  finally show ?thesis
    by (simp add: Address_Bytes_def)
qed

lemma Unpack_uint256_Hash_Bytes [simp]: "Unpack_uint256 (Hash_Bytes v) = Inr (unat v)"
  by (simp add: Unpack_uint256_def be_to_nat_Hash_Bytes)

lemma indexed_loop_topic0_only [simp]: "indexed_loop [t0] inputs i k = []"
  by (induction inputs arbitrary: i k) simp_all

lemma nonindexed_loop_zip:
  "map (\<lambda>(i, name, v). (name, v)) (nonindexed_loop values inputs i k)
     = zip (map Name (filter (\<lambda>input. \<not> Indexed input) inputs)) (drop k values)"
proof (induction inputs arbitrary: i k)
  case Nil
  show ?case by simp
next
  case (Cons input rest)
  show ?case
  proof (cases "\<not> Indexed input \<and> k < length values")
    case True
    then have "drop k values = values ! k # drop (Suc k) values"
      by (simp add: Cons_nth_drop_Suc)
    with True Cons [of "i + 1" "k + 1"] show ?thesis by simp
  next
    case False
    with Cons [of "i + 1" k] show ?thesis by auto
  qed
qed

lemma Add_succeeds: "1 \<le> limit s \<Longrightarrow> \<exists>s'. Add s e = Inr s'"
proof (cases "int (length (events s)) \<ge> limit s")
  case True
  moreover assume "1 \<le> limit s"
  ultimately have "1 \<le> length (events s)" by simp
  with True show ?thesis by (simp add: Add_def slice_from_1_def)
next
  case False
  then show ?thesis by (simp add: Add_def)
qed

lemma Add_last: "Add s e = Inr s' \<Longrightarrow> events s' \<noteq> [] \<and> last (events s') = e"
  by (auto simp: Add_def slice_from_1_def split: if_splits)


text \<open>
  A stand-in for Keccak in concrete runs (the code of the first character), and a log
  to fill in.
\<close>

definition toy_hash :: "string \<Rightarrow> Hash" where
  "toy_hash s = (case s of [] \<Rightarrow> 0 | c # _ \<Rightarrow> of_nat (of_char c))"

definition sample_log :: Log where
  "sample_log =
     \<lparr>Address = 0xC0, Topics = [], Data = [], Log_BlockNumber = 17, Log_TxHash = 0xAB, Index = 0\<rparr>"

text \<open>
  Claim C5. Take any sender, recipient and value, and the log encoded from them:
  \<open>topics[0]\<close> the signature hash, \<open>topics[1]\<close> and \<open>topics[2]\<close> the zero-padded
  addresses, the payload the 32-byte big-endian value. \<^verbatim>\<open>parseLogEvent\<close> over the
  ERC-20 ABI, in either iteration order of its two events (whose signature hashes
  differ), reports the event Transfer with exactly the sender, the recipient and the
  value; and the subscription stores a \<open>TransferEvent\<close> with exactly these three.
\<close>

theorem Transfer_round_trip:
  assumes "Keccak256Hash ''Transfer(address,address,uint256)''
             \<noteq> Keccak256Hash ''Approval(address,address,uint256)''"
  shows "parseLogEvent Keccak256Hash Unpack_erc20
           (encode_Transfer Keccak256Hash sender recipient v l) erc20_events
         = EventReport ''Transfer''
             [(1, ''from'', PAddress sender), (2, ''to'', PAddress recipient)]
             (Decoded [(3, ''value'', unat v)])
       \<and> parseLogEvent Keccak256Hash Unpack_erc20
           (encode_Transfer Keccak256Hash sender recipient v l) (rev erc20_events)
         = EventReport ''Transfer''
             [(1, ''from'', PAddress sender), (2, ''to'', PAddress recipient)]
             (Decoded [(3, ''value'', unat v)])
       \<and> receive_log Unpack_uint256 store (encode_Transfer Keccak256Hash sender recipient v l) now
         = (case Add store
                  \<lparr>BlockNumber = Log_BlockNumber l, TxHash = Log_TxHash l,
                   From = sender, To = recipient, Value = unat v, Timestamp = now\<rparr> of
              Inl p \<Rightarrow> Inl p
            | Inr store' \<Rightarrow> Inr (store', []))"
proof (intro conjI)
  let ?log = "encode_Transfer Keccak256Hash sender recipient v l"
  have topics: "Topics ?log = [Keccak256Hash ''Transfer(address,address,uint256)'',
                               address_topic sender, address_topic recipient]"
    and data: "Data ?log = Hash_Bytes v"
    by (simp_all add: encode_Transfer_def)
  have nonempty: "0 < length (Hash_Bytes v)"
    by simp
  have payload: "parse_data Unpack_erc20 ?log ''Transfer'' (snd (erc20_events ! 0))
                 = Decoded [(3, ''value'', unat v)]"
    using nonempty
    by (simp add: parse_data_def data erc20_events_def Unpack_erc20_def del: length_Hash_Bytes)
  have indexed: "indexed_loop (Topics ?log) (Inputs (snd (erc20_events ! 0))) 0 0
                 = [(1, ''from'', PAddress sender), (2, ''to'', PAddress recipient)]"
    by (simp add: topics erc20_events_def print_topic_def)
  show "parseLogEvent Keccak256Hash Unpack_erc20 ?log erc20_events
         = EventReport ''Transfer''
             [(1, ''from'', PAddress sender), (2, ''to'', PAddress recipient)]
             (Decoded [(3, ''value'', unat v)])"
    using payload indexed
    by (simp add: parseLogEvent_def topics erc20_events_def)
  show "parseLogEvent Keccak256Hash Unpack_erc20 ?log (rev erc20_events)
         = EventReport ''Transfer''
             [(1, ''from'', PAddress sender), (2, ''to'', PAddress recipient)]
             (Decoded [(3, ''value'', unat v)])"
    using payload indexed assms
    by (simp add: parseLogEvent_def topics erc20_events_def)
  show "receive_log Unpack_uint256 store ?log now
         = (case Add store
                  \<lparr>BlockNumber = Log_BlockNumber l, TxHash = Log_TxHash l,
                   From = sender, To = recipient, Value = unat v, Timestamp = now\<rparr> of
              Inl p \<Rightarrow> Inl p
            | Inr store' \<Rightarrow> Inr (store', []))"
    by (simp add: receive_log_def topics data) (simp add: encode_Transfer_def)
qed

theorem Transfer_round_trip_witness:
  "toy_hash ''Transfer(address,address,uint256)'' \<noteq> toy_hash ''Approval(address,address,uint256)''
   \<and> parseLogEvent toy_hash Unpack_erc20
        (encode_Transfer toy_hash 0xA11CE 0xB0B 1000 sample_log) (rev erc20_events)
       = EventReport ''Transfer''
           [(1, ''from'', PAddress 0xA11CE), (2, ''to'', PAddress 0xB0B)]
           (Decoded [(3, ''value'', 1000)])
   \<and> receive_log Unpack_uint256 \<lparr>events = [], limit = 100\<rparr>
        (encode_Transfer toy_hash 0xA11CE 0xB0B 1000 sample_log) 5
       = Inr (\<lparr>events = [\<lparr>BlockNumber = 17, TxHash = 0xAB, From = 0xA11CE, To = 0xB0B,
                            Value = 1000, Timestamp = 5\<rparr>], limit = 100\<rparr>, [])"
proof -
  have h: "toy_hash ''Transfer(address,address,uint256)''
             \<noteq> toy_hash ''Approval(address,address,uint256)''"
    by (simp add: toy_hash_def)
  show ?thesis
    using Transfer_round_trip [OF h, of "0xA11CE" "0xB0B" 1000 sample_log
        "\<lparr>events = [], limit = 100\<rparr>" 5] h
    by (simp add: Add_def sample_log_def)
qed


text \<open>
  Claim C6. For a log whose only topic is \<open>topics[0]\<close>, matching an event of the ABI:
  \<^verbatim>\<open>parseLogEvent\<close> returns a report of that event in which no indexed parameter
  appears, whatever indexed parameters the event declares; the payload part is what
  it is for any log, and when the payload unpacks, the report pairs the non-indexed
  parameters, in declaration order, with the unpacked values.
\<close>

theorem topic0_only_omits_indexed:
  assumes "Topics vLog = [t0]"
    and "find (\<lambda>(name, event). Keccak256Hash (Sig event) = t0) abi_events = Some (eventName, eventSig)"
    and "eventName \<noteq> []"
  shows "parseLogEvent Keccak256Hash unpack vLog abi_events
           = EventReport eventName [] (parse_data unpack vLog eventName eventSig)
       \<and> (Data vLog \<noteq> [] \<and> filter (\<lambda>input. \<not> Indexed input) (Inputs eventSig) \<noteq> []
            \<and> unpack eventName (Data vLog) = Inr values \<longrightarrow>
          (\<exists>produced. parse_data unpack vLog eventName eventSig = Decoded produced
             \<and> map (\<lambda>(i, name, v). (name, v)) produced
                 = zip (map Name (filter (\<lambda>input. \<not> Indexed input) (Inputs eventSig))) values))"
proof (intro conjI impI)
  show "parseLogEvent Keccak256Hash unpack vLog abi_events
           = EventReport eventName [] (parse_data unpack vLog eventName eventSig)"
    using assms by (simp add: parseLogEvent_def)
next
  assume "Data vLog \<noteq> [] \<and> filter (\<lambda>input. \<not> Indexed input) (Inputs eventSig) \<noteq> []
            \<and> unpack eventName (Data vLog) = Inr values"
  then have "parse_data unpack vLog eventName eventSig
             = Decoded (nonindexed_loop values (Inputs eventSig) 0 0)"
    by (simp add: parse_data_def)
  moreover have "map (\<lambda>(i, name, v). (name, v)) (nonindexed_loop values (Inputs eventSig) 0 0)
                 = zip (map Name (filter (\<lambda>input. \<not> Indexed input) (Inputs eventSig))) values"
    using nonindexed_loop_zip [of "values" "Inputs eventSig" 0 0] by simp
  ultimately show "\<exists>produced. parse_data unpack vLog eventName eventSig = Decoded produced
             \<and> map (\<lambda>(i, name, v). (name, v)) produced
                 = zip (map Name (filter (\<lambda>input. \<not> Indexed input) (Inputs eventSig))) values"
    by blast
qed

text \<open>A Transfer log that lost its two indexed topics.\<close>

definition topic0_only_log :: Log where
  "topic0_only_log =
     sample_log\<lparr>Topics := [toy_hash ''Transfer(address,address,uint256)''],
                Data := Hash_Bytes 1000\<rparr>"

theorem topic0_only_omits_indexed_witness:
  "Topics topic0_only_log = [toy_hash ''Transfer(address,address,uint256)'']
   \<and> find (\<lambda>(name, event). toy_hash (Sig event) = toy_hash ''Transfer(address,address,uint256)'')
        erc20_events = Some (erc20_events ! 0)
   \<and> fst (erc20_events ! 0) = ''Transfer''
   \<and> Unpack_erc20 ''Transfer'' (Data topic0_only_log) = Inr [1000]
   \<and> parseLogEvent toy_hash Unpack_erc20 topic0_only_log erc20_events
       = EventReport ''Transfer'' [] (Decoded [(3, ''value'', 1000)])"
proof -
  have t: "Topics topic0_only_log = [toy_hash ''Transfer(address,address,uint256)'']"
    by (simp add: topic0_only_log_def)
  have f: "find (\<lambda>(name, event). toy_hash (Sig event) = toy_hash ''Transfer(address,address,uint256)'')
        erc20_events = Some (''Transfer'', snd (erc20_events ! 0))"
    by (simp add: erc20_events_def)
  have n: "''Transfer'' \<noteq> []"
    by simp
  have u: "Unpack_erc20 ''Transfer'' (Data topic0_only_log) = Inr [1000]"
    by (simp add: topic0_only_log_def Unpack_erc20_def)
  have d: "Data topic0_only_log \<noteq> []"
    using length_Hash_Bytes [of 1000] by (auto simp: topic0_only_log_def simp del: length_Hash_Bytes)
  have p: "parse_data Unpack_erc20 topic0_only_log ''Transfer'' (snd (erc20_events ! 0))
           = Decoded [(3, ''value'', 1000)]"
    using d u by (simp add: parse_data_def erc20_events_def)
  show ?thesis
    using topic0_only_omits_indexed [OF t f n, of Unpack_erc20 "[1000]"] t f u p
    by (simp add: erc20_events_def)
qed

text \<open>
  Claim C9. For a log with at least one topic whose payload unpacks to a value, the
  subscription appends a \<open>TransferEvent\<close>: the result does not depend on \<open>topics[0]\<close>
  (any other first topic gives the same result); and with fewer than 3 topics the
  stored \<open>From\<close> and \<open>To\<close> are the zero address. With a positive limit the append
  succeeds and the event is the last of the store.
\<close>

theorem every_unpackable_log_is_stored:
  assumes "Topics vLog = t0 # ts" and "unpack (Data vLog) = Inr v"
  shows "receive_log unpack store vLog now
           = (case Add store
                    \<lparr>BlockNumber = Log_BlockNumber vLog, TxHash = Log_TxHash vLog,
                     From = (if 2 \<le> length ts then BytesToAddress (Hash_Bytes (ts ! 0)) else 0),
                     To = (if 2 \<le> length ts then BytesToAddress (Hash_Bytes (ts ! 1)) else 0),
                     Value = v, Timestamp = now\<rparr> of
                Inl p \<Rightarrow> Inl p
              | Inr store' \<Rightarrow> Inr (store', []))
       \<and> receive_log unpack store (vLog\<lparr>Topics := t0' # ts\<rparr>) now
           = receive_log unpack store vLog now
       \<and> (1 \<le> limit store \<longrightarrow>
            (\<exists>store'. receive_log unpack store vLog now = Inr (store', [])
               \<and> events store' \<noteq> []
               \<and> last (events store')
                   = \<lparr>BlockNumber = Log_BlockNumber vLog, TxHash = Log_TxHash vLog,
                      From = (if 2 \<le> length ts then BytesToAddress (Hash_Bytes (ts ! 0)) else 0),
                      To = (if 2 \<le> length ts then BytesToAddress (Hash_Bytes (ts ! 1)) else 0),
                      Value = v, Timestamp = now\<rparr>))"
proof (intro conjI impI)
  let ?e = "\<lparr>BlockNumber = Log_BlockNumber vLog, TxHash = Log_TxHash vLog,
             From = (if 2 \<le> length ts then BytesToAddress (Hash_Bytes (ts ! 0)) else 0),
             To = (if 2 \<le> length ts then BytesToAddress (Hash_Bytes (ts ! 1)) else 0),
             Value = v, Timestamp = now\<rparr>"
  have three: "3 \<le> length (Topics vLog) \<longleftrightarrow> 2 \<le> length ts"
    using assms(1) by auto
  show r: "receive_log unpack store vLog now
           = (case Add store ?e of Inl p \<Rightarrow> Inl p | Inr store' \<Rightarrow> Inr (store', []))"
    unfolding receive_log_def three using assms by simp
  show "receive_log unpack store (vLog\<lparr>Topics := t0' # ts\<rparr>) now
           = receive_log unpack store vLog now"
    unfolding receive_log_def using assms by simp
  assume "1 \<le> limit store"
  then obtain store' where a: "Add store ?e = Inr store'"
    using Add_succeeds by blast
  then have "events store' \<noteq> [] \<and> last (events store') = ?e"
    by (rule Add_last)
  with a r show "\<exists>store'. receive_log unpack store vLog now = Inr (store', [])
               \<and> events store' \<noteq> [] \<and> last (events store') = ?e"
    by simp
qed

text \<open>A log of some other event: one topic that is not the Transfer signature hash.\<close>

definition foreign_log :: Log where
  "foreign_log =
     sample_log\<lparr>Topics := [toy_hash ''Approval(address,address,uint256)''],
                Data := Hash_Bytes 1000\<rparr>"

theorem every_unpackable_log_is_stored_witness:
  "Topics foreign_log = [toy_hash ''Approval(address,address,uint256)'']
   \<and> toy_hash ''Approval(address,address,uint256)'' \<noteq> toy_hash ''Transfer(address,address,uint256)''
   \<and> Unpack_uint256 (Data foreign_log) = Inr 1000
   \<and> (1::int) \<le> limit \<lparr>events = [], limit = 100\<rparr>
   \<and> receive_log Unpack_uint256 \<lparr>events = [], limit = 100\<rparr> foreign_log 5
       = Inr (\<lparr>events = [\<lparr>BlockNumber = 17, TxHash = 0xAB, From = 0, To = 0,
                            Value = 1000, Timestamp = 5\<rparr>], limit = 100\<rparr>, [])"
proof -
  have t: "Topics foreign_log = [toy_hash ''Approval(address,address,uint256)'']"
    by (simp add: foreign_log_def)
  have u: "Unpack_uint256 (Data foreign_log) = Inr 1000"
    by (simp add: foreign_log_def)
  have h: "toy_hash ''Approval(address,address,uint256)'' \<noteq> toy_hash ''Transfer(address,address,uint256)''"
    by (simp add: toy_hash_def)
  show ?thesis
    using every_unpackable_log_is_stored
      [where vLog = foreign_log and unpack = Unpack_uint256 and v = 1000 and ts = "[]"
         and ?t0.0 = "toy_hash ''Approval(address,address,uint256)''"
         and store = "\<lparr>events = [], limit = 100\<rparr>" and now = 5] t u h
    by (simp add: Add_def foreign_log_def sample_log_def)
qed


text \<open>A log with one topic and an empty payload.\<close>

definition empty_payload_log :: Log where
  "empty_payload_log = sample_log\<lparr>Topics := [toy_hash ''Transfer(address,address,uint256)'']\<rparr>"

text \<open>
  Claim C8, as stated, fails: there is no decode error that carries the event name and
  the parameter name. For a log with an empty payload the only trace of the failure is
  the logged line, made of a fixed prefix and the library's error text; it names
  neither the event nor the parameter.
\<close>

theorem unpack_failure_report_names_nothing:
  "receive_log Unpack_uint256 \<lparr>events = [], limit = 100\<rparr> empty_payload_log 5
     = Inr (\<lparr>events = [], limit = 100\<rparr>,
            [''failed to unpack log data: abi: attempting to unmarshal an empty string while arguments are expected''])
   \<and> \<not> sublist ''Transfer''
         ''failed to unpack log data: abi: attempting to unmarshal an empty string while arguments are expected''
   \<and> \<not> sublist ''value''
         ''failed to unpack log data: abi: attempting to unmarshal an empty string while arguments are expected''"
proof (intro conjI)
  show "receive_log Unpack_uint256 \<lparr>events = [], limit = 100\<rparr> empty_payload_log 5
     = Inr (\<lparr>events = [], limit = 100\<rparr>,
            [''failed to unpack log data: abi: attempting to unmarshal an empty string while arguments are expected''])"
    by (simp add: receive_log_def empty_payload_log_def sample_log_def Unpack_uint256_def)
  show "\<not> sublist ''Transfer''
         ''failed to unpack log data: abi: attempting to unmarshal an empty string while arguments are expected''"
    by code_simp
  show "\<not> sublist ''value''
         ''failed to unpack log data: abi: attempting to unmarshal an empty string while arguments are expected''"
    by code_simp
qed

text \<open>
  Claim C8, amended. When the unpacking of a log's payload fails with an error, the
  subscription logs "failed to unpack log data: " followed by that error and nothing
  else; the store is unchanged; and the loop goes on with the logs that follow, from
  the same store. \<^verbatim>\<open>parseLogEvent\<close> likewise records the error and finishes its report.
\<close>

theorem unpack_failure_skips_log:
  assumes "Topics vLog \<noteq> []" and "unpack (Data vLog) = Inl err"
  shows "receive_log unpack store vLog now = Inr (store, [''failed to unpack log data: '' @ err])
       \<and> subscription_loop unpack store logged (LogReceived vLog now # rest)
           = subscription_loop unpack store (logged @ [''failed to unpack log data: '' @ err]) rest
       \<and> (Data vLog \<noteq> [] \<and> filter (\<lambda>input. \<not> Indexed input) (Inputs eventSig) \<noteq> []
            \<and> unpack' eventName (Data vLog) = Inl err' \<longrightarrow>
          parse_data unpack' vLog eventName eventSig = DecodeFailed err')"
proof -
  have "receive_log unpack store vLog now = Inr (store, [''failed to unpack log data: '' @ err])"
    using assms by (simp add: receive_log_def)
  then show ?thesis by (simp add: parse_data_def)
qed

text \<open>A Transfer log whose payload was cut to three bytes.\<close>

definition truncated_payload_log :: Log where
  "truncated_payload_log =
     sample_log\<lparr>Topics := [toy_hash ''Transfer(address,address,uint256)''],
                Data := [1, 2, 3]\<rparr>"

theorem unpack_failure_skips_log_witness:
  "Topics truncated_payload_log \<noteq> []
   \<and> Unpack_uint256 (Data truncated_payload_log)
       = Inl ''abi: cannot marshal in to go type: length insufficient 3 require 32''
   \<and> subscription_loop Unpack_uint256 \<lparr>events = [], limit = 100\<rparr> []
        [LogReceived truncated_payload_log 5, LogReceived foreign_log 6]
       = Inr (\<lparr>events = [\<lparr>BlockNumber = 17, TxHash = 0xAB, From = 0, To = 0,
                            Value = 1000, Timestamp = 6\<rparr>], limit = 100\<rparr>,
              [''failed to unpack log data: abi: cannot marshal in to go type: length insufficient 3 require 32''],
              Listening)
   \<and> parse_data Unpack_erc20 truncated_payload_log ''Transfer'' (snd (erc20_events ! 0))
       = DecodeFailed ''abi: cannot marshal in to go type: length insufficient 3 require 32''"
proof -
  let ?err = "''abi: cannot marshal in to go type: length insufficient 3 require 32''"
  have t: "Topics truncated_payload_log \<noteq> []"
    by (simp add: truncated_payload_log_def)
  have d: "Data truncated_payload_log \<noteq> []"
    by (simp add: truncated_payload_log_def)
  have n: "filter (\<lambda>input. \<not> Indexed input) (Inputs (snd (erc20_events ! 0))) \<noteq> []"
    by (simp add: erc20_events_def)
  have u: "Unpack_uint256 (Data truncated_payload_log) = Inl ?err"
    by code_simp
  then have u': "Unpack_erc20 ''Transfer'' (Data truncated_payload_log) = Inl ?err"
    by (simp add: Unpack_erc20_def)
  have g: "receive_log Unpack_uint256 \<lparr>events = [], limit = 100\<rparr> foreign_log 6
       = Inr (\<lparr>events = [\<lparr>BlockNumber = 17, TxHash = 0xAB, From = 0, To = 0,
                            Value = 1000, Timestamp = 6\<rparr>], limit = 100\<rparr>, [])"
    by (simp add: receive_log_def foreign_log_def sample_log_def Add_def)
  show ?thesis
    using unpack_failure_skips_log
      [where vLog = truncated_payload_log and unpack = Unpack_uint256 and err = ?err
         and store = "\<lparr>events = [], limit = 100\<rparr>" and now = 5 and logged = "[]"
         and rest = "[LogReceived foreign_log 6]" and unpack' = Unpack_erc20
         and eventName = "''Transfer''" and eventSig = "snd (erc20_events ! 0)" and err' = ?err]
      t d n u u' g
    by simp
qed

end
